theory Spec2Isabelle
  imports Main "HOL-Library.Finite_Map"
begin

section \<open>Data model\<close>

text \<open>
  An instant (\<open>time.Time\<close>) and a duration (\<open>time.Duration\<close>) are counts of
  nanoseconds, an instant counted from the Unix epoch; both are unbounded integers:
  \<open>t.Add(d)\<close> is \<open>t + d\<close> and \<open>t.After(u)\<close> is \<open>t > u\<close>. \<open>t.UnixNano()\<close> is an
  \<open>int64\<close>: the count of \<open>t\<close> wrapped into \<open>-2^63 .. 2^63 - 1\<close>, as the 64-bit
  arithmetic of the library computes it.

  The clock is an input. A \<open>clock\<close> gives the readings that the successive calls of
  \<open>time.Now()\<close> return while one operation runs: \<open>clk 0\<close> to the first call, \<open>clk 1\<close>
  to the second, and so on; \<open>later clk\<close> is the clock after one reading. Nothing is
  assumed of the readings. The operations of the recency engine read the clock at most
  once and take that one reading, \<open>now\<close>.

  Keys and values (\<open>interface{}\<close> in the source) are type parameters; a key type is any
  HOL type, which has the equality that a Go map key needs (a key whose dynamic type
  cannot be hashed makes the Go map panic, and has no counterpart here).
\<close>

type_synonym instant = int
type_synonym duration = int
type_synonym clock = "nat \<Rightarrow> instant"

definition later :: "clock \<Rightarrow> clock" where
  "later clk = (\<lambda>i. clk (Suc i))"

definition UnixNano :: "instant \<Rightarrow> int" where
  "UnixNano t = (t + 2 ^ 63) mod 2 ^ 64 - 2 ^ 63"

text \<open>\<open>type entry struct { key Key; ttl time.Time; value interface{} }\<close>\<close>

record ('k, 'v) entry =
  key :: 'k
  ttl :: instant
  val :: 'v

text \<open>\<open>const ( maxDuration time.Duration = 1<<63 - 1; defaultDuration time.Duration = 10 )\<close>\<close>

definition maxDuration :: duration where
  "maxDuration = 2 ^ 63 - 1"

definition defaultDuration :: duration where
  "defaultDuration = 10"

text \<open>
  What would stop the Go program with a panic is a value of the model: a method called
  on a nil \<open>*list.List\<close>, and a write to a nil map. \<open>Dangling\<close> is an artefact of the
  explicit element store of the recency engine: an address with no element stored at it,
  which a Go pointer cannot be.
\<close>

datatype fault = NilList | NilMap | Dangling

section \<open>The recency engine (lruCache)\<close>

text \<open>
  \<open>type lruCache struct { maxEntries int; ll *list.List; cache map[Key]*list.Element;
  expiry time.Duration }\<close>.

  The map and the list share the elements through pointers, so the elements live in an
  explicit store: \<open>lru_elems\<close> maps the address of a \<open>list.Element\<close> to the entry
  its \<open>Value\<close> points to, \<open>lru_ll\<close> is the sequence of addresses from front to back,
  \<open>lru_cache\<close> maps a key to an address, and \<open>lru_fresh\<close> is the next address the
  allocator hands out. \<open>None\<close> is the nil list and the nil map.
\<close>

record ('k, 'v) lruCache =
  lru_maxEntries :: int
  lru_ll :: "nat list option"
  lru_cache :: "('k \<rightharpoonup> nat) option"
  lru_expiry :: duration
  lru_elems :: "nat \<rightharpoonup> ('k, 'v) entry"
  lru_fresh :: nat

definition newLRU :: "int \<Rightarrow> duration \<Rightarrow> ('k, 'v) lruCache" where
  "newLRU maxEntries expiry =
     \<lparr>lru_maxEntries = maxEntries, lru_ll = Some [], lru_cache = Some Map.empty,
      lru_expiry = expiry, lru_elems = Map.empty, lru_fresh = 0\<rparr>"

text \<open>
  \<open>container/list\<close>: \<open>MoveToFront\<close> and \<open>Remove\<close> do nothing for an element that is
  not in the list; \<open>Back\<close> is nil on the empty list. In the operations below every list
  method on the nil list is the fault \<open>NilList\<close>; the list is nil only together with
  the map (\<open>lru_inv\<close>), and every operation returns or allocates both when the map is
  nil.
\<close>

definition MoveToFront :: "nat \<Rightarrow> nat list \<Rightarrow> nat list" where
  "MoveToFront e l = (if e \<in> set l then e # remove1 e l else l)"

definition Back :: "nat list \<Rightarrow> nat option" where
  "Back l = (if l = [] then None else Some (last l))"

definition lru_removeElement :: "('k, 'v) lruCache \<Rightarrow> nat \<Rightarrow> fault + ('k, 'v) lruCache" where
  "lru_removeElement c e =
     (case lru_ll c of
        None \<Rightarrow> Inl NilList
      | Some l \<Rightarrow>
          (case lru_elems c e of
             None \<Rightarrow> Inl Dangling
           | Some kv \<Rightarrow>
               Inr (c\<lparr>lru_ll := Some (remove1 e l),
                      lru_cache := map_option (\<lambda>m. m(key kv := None)) (lru_cache c)\<rparr>)))"

definition lru_remove :: "('k, 'v) lruCache \<Rightarrow> 'k \<Rightarrow> fault + ('k, 'v) lruCache" where
  "lru_remove c k =
     (case lru_cache c of
        None \<Rightarrow> Inr c
      | Some m \<Rightarrow> (case m k of Some ele \<Rightarrow> lru_removeElement c ele | None \<Rightarrow> Inr c))"

definition lru_removeOldest :: "('k, 'v) lruCache \<Rightarrow> fault + ('k, 'v) lruCache" where
  "lru_removeOldest c =
     (case lru_cache c of
        None \<Rightarrow> Inr c
      | Some m \<Rightarrow>
          (case lru_ll c of
             None \<Rightarrow> Inl NilList
           | Some l \<Rightarrow> (case Back l of Some ele \<Rightarrow> lru_removeElement c ele | None \<Rightarrow> Inr c)))"

definition lru_add ::
  "('k, 'v) lruCache \<Rightarrow> instant \<Rightarrow> 'k \<Rightarrow> 'v \<Rightarrow> fault + ('k, 'v) lruCache" where
  "lru_add c0 now k v =
     (let c = (if lru_cache c0 = None
               then c0\<lparr>lru_cache := Some Map.empty, lru_ll := Some []\<rparr> else c0)
      in case lru_ll c of
           None \<Rightarrow> Inl NilList
         | Some l \<Rightarrow>
             (case lru_cache c of
                None \<Rightarrow> Inl NilMap
              | Some m \<Rightarrow>
                  (case m k of
                     Some ee \<Rightarrow>
                       (case lru_elems c ee of
                          None \<Rightarrow> Inl Dangling
                        | Some e \<Rightarrow>
                            Inr (c\<lparr>lru_ll := Some (MoveToFront ee l),
                                   lru_elems := (lru_elems c)
                                     (ee \<mapsto> e\<lparr>ttl := now + lru_expiry c, val := v\<rparr>)\<rparr>))
                   | None \<Rightarrow>
                       (let ele = lru_fresh c;
                            c1 = c\<lparr>lru_ll := Some (ele # l),
                                   lru_elems := (lru_elems c)
                                     (ele \<mapsto> \<lparr>key = k, ttl = now + lru_expiry c, val = v\<rparr>),
                                   lru_fresh := Suc ele,
                                   lru_cache := Some (m(k \<mapsto> ele))\<rparr>
                        in if lru_maxEntries c \<noteq> 0 \<and> int (length (ele # l)) > lru_maxEntries c
                           then lru_removeOldest c1 else Inr c1))))"

definition lru_size :: "('k, 'v) lruCache \<Rightarrow> fault + int" where
  "lru_size c =
     (case lru_cache c of
        None \<Rightarrow> Inr 0
      | Some m \<Rightarrow> (case lru_ll c of None \<Rightarrow> Inl NilList | Some l \<Rightarrow> Inr (int (length l))))"

text \<open>
  \<open>get\<close> returns \<open>(value, ok)\<close>: \<open>Some v\<close> is \<open>(v, true)\<close>, \<open>None\<close> is \<open>(nil, false)\<close>.
\<close>

definition lru_get ::
  "('k, 'v) lruCache \<Rightarrow> instant \<Rightarrow> 'k \<Rightarrow> fault + ('v option \<times> ('k, 'v) lruCache)" where
  "lru_get c now k =
     (case lru_cache c of
        None \<Rightarrow> Inr (None, c)
      | Some m \<Rightarrow>
          (case m k of
             None \<Rightarrow> Inr (None, c)
           | Some ele \<Rightarrow>
               (case lru_elems c ele of
                  None \<Rightarrow> Inl Dangling
                | Some e \<Rightarrow>
                    if now > ttl e
                    then (case lru_remove c k of Inl f \<Rightarrow> Inl f | Inr c' \<Rightarrow> Inr (None, c'))
                    else (case lru_ll c of
                            None \<Rightarrow> Inl NilList
                          | Some l \<Rightarrow> Inr (Some (val e), c\<lparr>lru_ll := Some (MoveToFront ele l)\<rparr>)))))"

definition lru_clear :: "('k, 'v) lruCache \<Rightarrow> ('k, 'v) lruCache" where
  "lru_clear c = c\<lparr>lru_ll := None, lru_cache := None\<rparr>"

section \<open>The expiry engine (ttlCache)\<close>

text \<open>
  \<open>type ttlCache struct { maxEntries int; updateAgeOnGet bool; cache map[Key]*entry;
  expiration map[int64]Key; expiry time.Duration }\<close>.

  Each entry is pointed to from the one place \<open>cache[key]\<close>, so the map holds the entry
  itself and a write through the pointer is an update of the map. Both maps are finite
  maps, \<open>None\<close> is the nil map: a read of a nil map misses, \<open>delete\<close> on it does
  nothing, \<open>len\<close> of it is 0, and a write to it is the fault \<open>NilMap\<close>. The keys of
  \<open>expiration\<close> are the \<open>int64\<close> values of \<open>UnixNano\<close>.
\<close>

record ('k, 'v) ttlCache =
  ttl_maxEntries :: int
  ttl_updateAgeOnGet :: bool
  ttl_cache :: "('k, ('k, 'v) entry) fmap option"
  ttl_expiration :: "(int, 'k) fmap option"
  ttl_expiry :: duration

definition newTTLCache :: "int \<Rightarrow> duration \<Rightarrow> bool \<Rightarrow> ('k, 'v) ttlCache" where
  "newTTLCache maxEntries expiry updateAgeOnGet =
     \<lparr>ttl_maxEntries = maxEntries, ttl_updateAgeOnGet = updateAgeOnGet,
      ttl_cache = Some fmempty, ttl_expiration = Some fmempty, ttl_expiry = expiry\<rparr>"

definition ttl_changeTTL ::
  "('k, 'v) ttlCache \<Rightarrow> instant \<Rightarrow> 'k \<Rightarrow> fault + ('k, 'v) ttlCache" where
  "ttl_changeTTL c now k =
     (case ttl_cache c of
        None \<Rightarrow> Inr c
      | Some m \<Rightarrow>
          (case fmlookup m k of
             None \<Rightarrow> Inr c
           | Some ee \<Rightarrow>
               (case ttl_expiration c of
                  None \<Rightarrow> Inl NilMap
                | Some x \<Rightarrow>
                    Inr (c\<lparr>ttl_cache := Some (fmupd k (ee\<lparr>ttl := now + ttl_expiry c\<rparr>) m),
                           ttl_expiration :=
                             Some (fmupd (UnixNano (now + ttl_expiry c)) k
                                     (fmdrop (UnixNano (ttl ee)) x))\<rparr>))))"

definition ttl_removeElement :: "('k, 'v) ttlCache \<Rightarrow> ('k, 'v) entry \<Rightarrow> ('k, 'v) ttlCache" where
  "ttl_removeElement c e =
     c\<lparr>ttl_expiration := map_option (fmdrop (UnixNano (ttl e))) (ttl_expiration c),
       ttl_cache := map_option (fmdrop (key e)) (ttl_cache c)\<rparr>"

definition ttl_remove :: "('k, 'v) ttlCache \<Rightarrow> 'k \<Rightarrow> ('k, 'v) ttlCache" where
  "ttl_remove c k =
     (case ttl_cache c of
        None \<Rightarrow> c
      | Some m \<Rightarrow> (case fmlookup m k of Some ele \<Rightarrow> ttl_removeElement c ele | None \<Rightarrow> c))"

text \<open>\<open>len(c.cache)\<close>\<close>

definition ttl_len :: "('k, 'v) ttlCache \<Rightarrow> int" where
  "ttl_len c = (case ttl_cache c of None \<Rightarrow> 0 | Some m \<Rightarrow> int (fcard (fmdom m)))"

text \<open>
  The loop of \<open>purgeToCapacity\<close> over the sorted instants. The condition
  \<open>len(c.cache) <= c.maxEntries && k > time.Now().UnixNano()\<close> reads the clock only
  when its first half holds, and reads it anew in every iteration that gets there.
  \<open>c.expiration[k]\<close> is read when \<open>k\<close> is visited; were the instant no longer
  registered, the read would give the nil key, and the model goes on to the next
  instant. The instants the loop visits are still registered in every state the engine
  reaches (\<open>ttl_walk_registered\<close> below).
\<close>

definition ttl_evict :: "('k, 'v) ttlCache \<Rightarrow> int \<Rightarrow> ('k, 'v) ttlCache" where
  "ttl_evict c k =
     (case ttl_expiration c of
        None \<Rightarrow> c
      | Some x \<Rightarrow> (case fmlookup x k of None \<Rightarrow> c | Some key' \<Rightarrow> ttl_remove c key'))"

fun ttl_purge_walk :: "('k, 'v) ttlCache \<Rightarrow> clock \<Rightarrow> int list \<Rightarrow> ('k, 'v) ttlCache" where
  "ttl_purge_walk c clk [] = c"
| "ttl_purge_walk c clk (k # ks) =
     (if ttl_len c \<le> ttl_maxEntries c
      then (if k > UnixNano (clk 0) then c
            else ttl_purge_walk (ttl_evict c k) (later clk) ks)
      else ttl_purge_walk (ttl_evict c k) clk ks)"

text \<open>\<open>expKeys\<close>: the registered instants, sorted ascending.\<close>

definition expKeys :: "('k, 'v) ttlCache \<Rightarrow> int list" where
  "expKeys c = (case ttl_expiration c of None \<Rightarrow> [] | Some x \<Rightarrow> sorted_list_of_fset (fmdom x))"

definition ttl_purgeToCapacity :: "('k, 'v) ttlCache \<Rightarrow> clock \<Rightarrow> ('k, 'v) ttlCache" where
  "ttl_purgeToCapacity c clk = ttl_purge_walk c clk (expKeys c)"

text \<open>
  \<open>add\<close> reads the clock once for the \<open>ttl\<close> it stores (in \<open>changeTTL\<close> for a key
  that is there); the purge that follows the insertion of a new key reads it after that.
\<close>

definition ttl_add ::
  "('k, 'v) ttlCache \<Rightarrow> clock \<Rightarrow> 'k \<Rightarrow> 'v \<Rightarrow> fault + ('k, 'v) ttlCache" where
  "ttl_add c0 clk k v =
     (let c = (if ttl_cache c0 = None
               then c0\<lparr>ttl_cache := Some fmempty, ttl_expiration := Some fmempty\<rparr> else c0)
      in case ttl_cache c of
           None \<Rightarrow> Inl NilMap
         | Some m \<Rightarrow>
             (case fmlookup m k of
                Some ee \<Rightarrow>
                  ttl_changeTTL (c\<lparr>ttl_cache := Some (fmupd k (ee\<lparr>val := v\<rparr>) m)\<rparr>) (clk 0) k
              | None \<Rightarrow>
                  (let ele = \<lparr>key = k, ttl = clk 0 + ttl_expiry c, val = v\<rparr>
                   in case ttl_expiration c of
                        None \<Rightarrow> Inl NilMap
                      | Some x \<Rightarrow>
                          (let c1 = c\<lparr>ttl_cache := Some (fmupd k ele m),
                                      ttl_expiration := Some (fmupd (UnixNano (ttl ele)) k x)\<rparr>
                           in if ttl_maxEntries c \<noteq> 0 \<and> ttl_len c1 > ttl_maxEntries c
                              then Inr (ttl_purgeToCapacity c1 (later clk)) else Inr c1))))"

definition ttl_size :: "('k, 'v) ttlCache \<Rightarrow> int" where
  "ttl_size c = (case ttl_cache c of None \<Rightarrow> 0 | Some m \<Rightarrow> int (fcard (fmdom m)))"

text \<open>
  \<open>get\<close> reads the clock for the test of expiry, and \<open>changeTTL\<close> reads it again
  when the age is updated.
\<close>

definition ttl_get ::
  "('k, 'v) ttlCache \<Rightarrow> clock \<Rightarrow> 'k \<Rightarrow> fault + ('v option \<times> ('k, 'v) ttlCache)" where
  "ttl_get c clk k =
     (case ttl_cache c of
        None \<Rightarrow> Inr (None, c)
      | Some m \<Rightarrow>
          (case fmlookup m k of
             None \<Rightarrow> Inr (None, c)
           | Some ele \<Rightarrow>
               if clk 0 > ttl ele then Inr (None, ttl_remove c k)
               else if ttl_updateAgeOnGet c
                    then (case ttl_changeTTL c (clk 1) k of
                            Inl f \<Rightarrow> Inl f | Inr c' \<Rightarrow> Inr (Some (val ele), c'))
                    else Inr (Some (val ele), c)))"

definition ttl_clear :: "('k, 'v) ttlCache \<Rightarrow> ('k, 'v) ttlCache" where
  "ttl_clear c = c\<lparr>ttl_cache := None, ttl_expiration := None\<rparr>"

section \<open>The policy contract (ICache)\<close>

text \<open>
  A call of one of the five methods of \<open>ICache\<close>, and what it returns to the caller:
  nothing (\<open>add\<close>, \<open>remove\<close>, \<open>clear\<close>), the pair of \<open>get\<close>, or the count of \<open>size\<close>.
\<close>

datatype ('k, 'v) op = Add 'k 'v | Get 'k | Remove 'k | Size | Clear

datatype 'v obs = Done | Found "'v option" | Count int

definition lru_step ::
  "('k, 'v) lruCache \<Rightarrow> instant \<Rightarrow> ('k, 'v) op \<Rightarrow> fault + ('v obs \<times> ('k, 'v) lruCache)" where
  "lru_step c now p =
     (case p of
        Add k v \<Rightarrow> (case lru_add c now k v of Inl f \<Rightarrow> Inl f | Inr c' \<Rightarrow> Inr (Done, c'))
      | Get k \<Rightarrow> (case lru_get c now k of Inl f \<Rightarrow> Inl f | Inr (r, c') \<Rightarrow> Inr (Found r, c'))
      | Remove k \<Rightarrow> (case lru_remove c k of Inl f \<Rightarrow> Inl f | Inr c' \<Rightarrow> Inr (Done, c'))
      | Size \<Rightarrow> (case lru_size c of Inl f \<Rightarrow> Inl f | Inr n \<Rightarrow> Inr (Count n, c))
      | Clear \<Rightarrow> Inr (Done, lru_clear c))"

definition ttl_step ::
  "('k, 'v) ttlCache \<Rightarrow> clock \<Rightarrow> ('k, 'v) op \<Rightarrow> fault + ('v obs \<times> ('k, 'v) ttlCache)" where
  "ttl_step c clk p =
     (case p of
        Add k v \<Rightarrow> (case ttl_add c clk k v of Inl f \<Rightarrow> Inl f | Inr c' \<Rightarrow> Inr (Done, c'))
      | Get k \<Rightarrow> (case ttl_get c clk k of Inl f \<Rightarrow> Inl f | Inr (r, c') \<Rightarrow> Inr (Found r, c'))
      | Remove k \<Rightarrow> Inr (Done, ttl_remove c k)
      | Size \<Rightarrow> Inr (Count (ttl_size c), c)
      | Clear \<Rightarrow> Inr (Done, ttl_clear c))"

text \<open>
  A sequence of calls, each with its clock reading (recency engine) or its clock (expiry
  engine); the first fault ends the run.
\<close>

fun lru_run ::
  "('k, 'v) lruCache \<Rightarrow> (instant \<times> ('k, 'v) op) list \<Rightarrow> fault + ('v obs list \<times> ('k, 'v) lruCache)" where
  "lru_run c [] = Inr ([], c)"
| "lru_run c ((now, p) # ps) =
     (case lru_step c now p of
        Inl f \<Rightarrow> Inl f
      | Inr (r, c') \<Rightarrow>
          (case lru_run c' ps of Inl f \<Rightarrow> Inl f | Inr (rs, c'') \<Rightarrow> Inr (r # rs, c'')))"

fun ttl_run ::
  "('k, 'v) ttlCache \<Rightarrow> (clock \<times> ('k, 'v) op) list \<Rightarrow> fault + ('v obs list \<times> ('k, 'v) ttlCache)" where
  "ttl_run c [] = Inr ([], c)"
| "ttl_run c ((clk, p) # ps) =
     (case ttl_step c clk p of
        Inl f \<Rightarrow> Inl f
      | Inr (r, c') \<Rightarrow>
          (case ttl_run c' ps of Inl f \<Rightarrow> Inl f | Inr (rs, c'') \<Rightarrow> Inr (r # rs, c'')))"

text \<open>What the caller has seen of a run: the results, or the fault.\<close>

definition observed :: "fault + ('o \<times> 's) \<Rightarrow> fault + 'o" where
  "observed r = (case r of Inl f \<Rightarrow> Inl f | Inr (x, s) \<Rightarrow> Inr x)"

text \<open>The interface \<open>ICache\<close> with its two implementations.\<close>

datatype ('k, 'v) ICache = LRU "('k, 'v) lruCache" | TTLC "('k, 'v) ttlCache"

definition ICache_step ::
  "('k, 'v) ICache \<Rightarrow> clock \<Rightarrow> ('k, 'v) op \<Rightarrow> fault + ('v obs \<times> ('k, 'v) ICache)" where
  "ICache_step e clk p =
     (case e of
        LRU c \<Rightarrow> (case lru_step c (clk 0) p of Inl f \<Rightarrow> Inl f | Inr (r, c') \<Rightarrow> Inr (r, LRU c'))
      | TTLC c \<Rightarrow> (case ttl_step c clk p of Inl f \<Rightarrow> Inl f | Inr (r, c') \<Rightarrow> Inr (r, TTLC c')))"

fun ICache_run ::
  "('k, 'v) ICache \<Rightarrow> (clock \<times> ('k, 'v) op) list \<Rightarrow> fault + ('v obs list \<times> ('k, 'v) ICache)" where
  "ICache_run e [] = Inr ([], e)"
| "ICache_run e ((clk, p) # ps) =
     (case ICache_step e clk p of
        Inl f \<Rightarrow> Inl f
      | Inr (r, e') \<Rightarrow>
          (case ICache_run e' ps of Inl f \<Rightarrow> Inl f | Inr (rs, e'') \<Rightarrow> Inr (r # rs, e'')))"

section \<open>The facade (Cache) and the mode selector (CacheConfig)\<close>

text \<open>
  A callback is a \<open>func()\<close>: it acts on the world outside the cache, of type \<open>'w\<close>.
  Next to the world runs a trace of the calls made while a facade method executes:
  each invocation of a callback function and each delegation to the engine.
\<close>

datatype event =
  Hook_Add | Hook_Get | Hook_Remove
  | Engine_add | Engine_size | Engine_get | Engine_remove | Engine_clear

text \<open>
  \<open>type ChangeCallbackFunc struct { AddFunc func(); GetFunc func(); RemoveFunc func() }\<close>,
  \<open>None\<close> being the nil function.
\<close>

record 'w ChangeCallbackFunc =
  AddFunc :: "('w \<Rightarrow> 'w) option"
  GetFunc :: "('w \<Rightarrow> 'w) option"
  RemoveFunc :: "('w \<Rightarrow> 'w) option"

definition OnAdd :: "'w ChangeCallbackFunc \<Rightarrow> 'w \<times> event list \<Rightarrow> 'w \<times> event list" where
  "OnAdd c env =
     (case AddFunc c of None \<Rightarrow> env | Some f \<Rightarrow> (f (fst env), snd env @ [Hook_Add]))"

definition OnGet :: "'w ChangeCallbackFunc \<Rightarrow> 'w \<times> event list \<Rightarrow> 'w \<times> event list" where
  "OnGet c env =
     (case GetFunc c of None \<Rightarrow> env | Some f \<Rightarrow> (f (fst env), snd env @ [Hook_Get]))"

definition OnRemove :: "'w ChangeCallbackFunc \<Rightarrow> 'w \<times> event list \<Rightarrow> 'w \<times> event list" where
  "OnRemove c env =
     (case RemoveFunc c of None \<Rightarrow> env | Some f \<Rightarrow> (f (fst env), snd env @ [Hook_Remove]))"

text \<open>
  \<open>type CacheConfig struct { TTL time.Duration; MaxEntries int;
  Callbacks ChangeCallbackHandler }\<close>. \<open>ChangeCallbackFunc\<close> is the implementation of
  the interface \<open>ChangeCallbackHandler\<close> in the repository; \<open>None\<close> is the nil
  interface value.
\<close>

record 'w CacheConfig =
  TTL :: duration
  MaxEntries :: int
  Callbacks :: "'w ChangeCallbackFunc option"

definition NewCacheConfig ::
  "duration \<Rightarrow> int \<Rightarrow> 'w ChangeCallbackFunc option \<Rightarrow> 'w CacheConfig" where
  "NewCacheConfig ttl' maxEntries callbacks =
     \<lparr>TTL = ttl', MaxEntries = maxEntries, Callbacks = callbacks\<rparr>"

text \<open>
  The mode selectors. \<open>cc\<close> is a pointer in the source, and the two modes with a TTL
  write the default into it: each returns the engine and the configuration after the
  call.
\<close>

definition LRUCacheMode :: "'w CacheConfig \<Rightarrow> ('k, 'v) ICache \<times> 'w CacheConfig" where
  "LRUCacheMode cc = (LRU (newLRU (MaxEntries cc) maxDuration), cc)"

definition LRUWithTTLCacheMode :: "'w CacheConfig \<Rightarrow> ('k, 'v) ICache \<times> 'w CacheConfig" where
  "LRUWithTTLCacheMode cc0 =
     (let cc = (if TTL cc0 = 0 then cc0\<lparr>TTL := defaultDuration\<rparr> else cc0)
      in (LRU (newLRU (MaxEntries cc) (TTL cc)), cc))"

definition TTLCacheMode :: "'w CacheConfig \<Rightarrow> bool \<Rightarrow> ('k, 'v) ICache \<times> 'w CacheConfig" where
  "TTLCacheMode cc0 updateAgeOnGet =
     (let cc = (if TTL cc0 = 0 then cc0\<lparr>TTL := defaultDuration\<rparr> else cc0)
      in (TTLC (newTTLCache (MaxEntries cc) (TTL cc) updateAgeOnGet), cc))"

text \<open>
  \<open>type Cache struct { Cache ICache; lock sync.Mutex; Config *CacheConfig }\<close>. The
  methods run one at a time under the lock, so the lock has no field in the model; the
  engine and the configuration are there, as \<open>NewCache\<close> is given them.
  Evaluating a method value of the nil interface \<open>Callbacks\<close> is the fault
  \<open>NilHandler\<close>. Each method takes the world and the trace and returns them as the
  call leaves them.
\<close>

record ('k, 'v, 'w) Cache =
  Cache :: "('k, 'v) ICache"
  Config :: "'w CacheConfig"

definition NewCache :: "('k, 'v) ICache \<Rightarrow> 'w CacheConfig \<Rightarrow> ('k, 'v, 'w) Cache" where
  "NewCache cache config = \<lparr>Cache = cache, Config = config\<rparr>"

datatype facade_fault = Engine fault | NilHandler

definition Cache_Add ::
  "('k, 'v, 'w) Cache \<Rightarrow> clock \<Rightarrow> 'k \<Rightarrow> 'v \<Rightarrow> 'w \<times> event list \<Rightarrow>
     facade_fault + (('k, 'v, 'w) Cache \<times> ('w \<times> event list))" where
  "Cache_Add c clk k v env =
     (case ICache_step (Cache c) clk (Add k v) of
        Inl f \<Rightarrow> Inl (Engine f)
      | Inr (r, e) \<Rightarrow>
          (case Callbacks (Config c) of
             None \<Rightarrow> Inl NilHandler
           | Some cb \<Rightarrow> Inr (c\<lparr>Cache := e\<rparr>, OnAdd cb (fst env, snd env @ [Engine_add]))))"

definition Cache_Size ::
  "('k, 'v, 'w) Cache \<Rightarrow> clock \<Rightarrow> 'w \<times> event list \<Rightarrow>
     facade_fault + ('v obs \<times> ('k, 'v, 'w) Cache \<times> ('w \<times> event list))" where
  "Cache_Size c clk env =
     (case ICache_step (Cache c) clk Size of
        Inl f \<Rightarrow> Inl (Engine f)
      | Inr (r, e) \<Rightarrow> Inr (r, c\<lparr>Cache := e\<rparr>, (fst env, snd env @ [Engine_size])))"

definition Cache_Get ::
  "('k, 'v, 'w) Cache \<Rightarrow> clock \<Rightarrow> 'k \<Rightarrow> 'w \<times> event list \<Rightarrow>
     facade_fault + ('v obs \<times> ('k, 'v, 'w) Cache \<times> ('w \<times> event list))" where
  "Cache_Get c clk k env =
     (case Callbacks (Config c) of
        None \<Rightarrow> Inl NilHandler
      | Some cb \<Rightarrow>
          (let env1 = OnGet cb env
           in case ICache_step (Cache c) clk (Get k) of
                Inl f \<Rightarrow> Inl (Engine f)
              | Inr (r, e) \<Rightarrow> Inr (r, c\<lparr>Cache := e\<rparr>, (fst env1, snd env1 @ [Engine_get]))))"

definition Cache_Remove ::
  "('k, 'v, 'w) Cache \<Rightarrow> clock \<Rightarrow> 'k \<Rightarrow> 'w \<times> event list \<Rightarrow>
     facade_fault + (('k, 'v, 'w) Cache \<times> ('w \<times> event list))" where
  "Cache_Remove c clk k env =
     (case ICache_step (Cache c) clk (Remove k) of
        Inl f \<Rightarrow> Inl (Engine f)
      | Inr (r, e) \<Rightarrow>
          (case Callbacks (Config c) of
             None \<Rightarrow> Inl NilHandler
           | Some cb \<Rightarrow> Inr (c\<lparr>Cache := e\<rparr>, OnRemove cb (fst env, snd env @ [Engine_remove]))))"

definition Cache_Clear ::
  "('k, 'v, 'w) Cache \<Rightarrow> clock \<Rightarrow> 'w \<times> event list \<Rightarrow>
     facade_fault + (('k, 'v, 'w) Cache \<times> ('w \<times> event list))" where
  "Cache_Clear c clk env =
     (case ICache_step (Cache c) clk Clear of
        Inl f \<Rightarrow> Inl (Engine f)
      | Inr (r, e) \<Rightarrow> Inr (c\<lparr>Cache := e\<rparr>, (fst env, snd env @ [Engine_clear])))"

section \<open>States and views\<close>

subsection \<open>Well-formed states of the recency engine\<close>

text \<open>
  List and map are nil together; the addresses in the list are distinct and allocated;
  the element at each address of the list is the one the map holds for its key, and the
  map holds nothing else.
\<close>

definition lru_inv :: "('k, 'v) lruCache \<Rightarrow> bool" where
  "lru_inv c =
     (case lru_ll c of
        None \<Rightarrow> lru_cache c = None
      | Some l \<Rightarrow>
          (case lru_cache c of
             None \<Rightarrow> False
           | Some m \<Rightarrow>
               distinct l \<and>
               (\<forall>e \<in> set l. e < lru_fresh c \<and>
                  (\<exists>kv. lru_elems c e = Some kv \<and> m (key kv) = Some e)) \<and>
               (\<forall>k e. m k = Some e \<longrightarrow>
                  e \<in> set l \<and> (\<exists>kv. lru_elems c e = Some kv \<and> key kv = k))))"

text \<open>
  The entries of the recency sequence, front first; their keys; the keys of the map;
  and the entry stored for a key, through the map and the element store.
\<close>

definition lru_entries :: "('k, 'v) lruCache \<Rightarrow> ('k, 'v) entry list" where
  "lru_entries c = (case lru_ll c of None \<Rightarrow> [] | Some l \<Rightarrow> List.map_filter (lru_elems c) l)"

definition lru_keys :: "('k, 'v) lruCache \<Rightarrow> 'k list" where
  "lru_keys c = map key (lru_entries c)"

definition lru_dom :: "('k, 'v) lruCache \<Rightarrow> 'k set" where
  "lru_dom c = (case lru_cache c of None \<Rightarrow> {} | Some m \<Rightarrow> dom m)"

definition lru_lookup :: "('k, 'v) lruCache \<Rightarrow> 'k \<Rightarrow> ('k, 'v) entry option" where
  "lru_lookup c k =
     (case lru_cache c of
        None \<Rightarrow> None
      | Some m \<Rightarrow> (case m k of None \<Rightarrow> None | Some a \<Rightarrow> lru_elems c a))"

text \<open>A well-formed state that also respects a positive bound.\<close>

definition lru_wf :: "('k, 'v) lruCache \<Rightarrow> bool" where
  "lru_wf c =
     (lru_inv c \<and> (0 < lru_maxEntries c \<longrightarrow> int (length (lru_entries c)) \<le> lru_maxEntries c))"

subsection \<open>The recency engine on the sequence of entries\<close>

text \<open>
  The operations of the recency engine computed on the sequence of entries alone (front
  first), with the bound and the expiry window as parameters: what a caller can tell
  about the engine. \<open>lru_step_seq\<close> below shows that the engine computes them.
  After \<open>add\<close>: an entry with the key is refreshed and moved to the front; otherwise a
  new entry is pushed at the front and, when the bound is set and exceeded, the
  back-most one goes.
\<close>

definition seq_add ::
  "int \<Rightarrow> duration \<Rightarrow> instant \<Rightarrow> 'k \<Rightarrow> 'v \<Rightarrow> ('k, 'v) entry list \<Rightarrow> ('k, 'v) entry list" where
  "seq_add maxEntries expiry now k v es =
     (case find (\<lambda>e. key e = k) es of
        Some e \<Rightarrow> e\<lparr>ttl := now + expiry, val := v\<rparr> # filter (\<lambda>x. key x \<noteq> k) es
      | None \<Rightarrow>
          (let es1 = \<lparr>key = k, ttl = now + expiry, val = v\<rparr> # es
           in if maxEntries \<noteq> 0 \<and> int (length es1) > maxEntries then butlast es1 else es1))"

definition seq_get ::
  "instant \<Rightarrow> 'k \<Rightarrow> ('k, 'v) entry list \<Rightarrow> 'v option \<times> ('k, 'v) entry list" where
  "seq_get now k es =
     (case find (\<lambda>e. key e = k) es of
        None \<Rightarrow> (None, es)
      | Some e \<Rightarrow>
          if now > ttl e then (None, filter (\<lambda>x. key x \<noteq> k) es)
          else (Some (val e), e # filter (\<lambda>x. key x \<noteq> k) es))"

definition seq_step ::
  "int \<Rightarrow> duration \<Rightarrow> instant \<Rightarrow> ('k, 'v) op \<Rightarrow> ('k, 'v) entry list \<Rightarrow>
     'v obs \<times> ('k, 'v) entry list" where
  "seq_step maxEntries expiry now p es =
     (case p of
        Add k v \<Rightarrow> (Done, seq_add maxEntries expiry now k v es)
      | Get k \<Rightarrow> (Found (fst (seq_get now k es)), snd (seq_get now k es))
      | Remove k \<Rightarrow> (Done, filter (\<lambda>x. key x \<noteq> k) es)
      | Size \<Rightarrow> (Count (int (length es)), es)
      | Clear \<Rightarrow> (Done, []))"

fun seq_run ::
  "int \<Rightarrow> duration \<Rightarrow> ('k, 'v) entry list \<Rightarrow> (instant \<times> ('k, 'v) op) list \<Rightarrow>
     'v obs list \<times> ('k, 'v) entry list" where
  "seq_run maxEntries expiry es [] = ([], es)"
| "seq_run maxEntries expiry es ((now, p) # ps) =
     (fst (seq_step maxEntries expiry now p es) #
        fst (seq_run maxEntries expiry (snd (seq_step maxEntries expiry now p es)) ps),
      snd (seq_run maxEntries expiry (snd (seq_step maxEntries expiry now p es)) ps))"

subsection \<open>States of the expiry engine\<close>

text \<open>\<open>c.cache[k]\<close> and \<open>c.expiration[t]\<close>, read from a map that may be nil.\<close>

definition ttl_entry :: "('k, 'v) ttlCache \<Rightarrow> 'k \<Rightarrow> ('k, 'v) entry option" where
  "ttl_entry c k = (case ttl_cache c of None \<Rightarrow> None | Some m \<Rightarrow> fmlookup m k)"

definition ttl_registered :: "('k, 'v) ttlCache \<Rightarrow> int \<Rightarrow> 'k option" where
  "ttl_registered c t = (case ttl_expiration c of None \<Rightarrow> None | Some x \<Rightarrow> fmlookup x t)"

text \<open>
  The index is sound: the maps are nil together, an entry is stored under its own key,
  and an instant registered for a key is the \<open>UnixNano\<close> of the \<open>ttl\<close> of the entry
  stored for that key. The index is exact when, moreover, the instant of every stored
  entry is registered for its key. An instant that fits \<open>int64\<close> is its own
  \<open>UnixNano\<close>.
\<close>

definition ttl_sound :: "('k, 'v) ttlCache \<Rightarrow> bool" where
  "ttl_sound c =
     ((ttl_cache c = None \<longleftrightarrow> ttl_expiration c = None) \<and>
      (\<forall>k e. ttl_entry c k = Some e \<longrightarrow> key e = k) \<and>
      (\<forall>t k. ttl_registered c t = Some k \<longrightarrow>
         (\<exists>e. ttl_entry c k = Some e \<and> UnixNano (ttl e) = t)))"

definition ttl_exact :: "('k, 'v) ttlCache \<Rightarrow> bool" where
  "ttl_exact c =
     (ttl_sound c \<and>
      (\<forall>k e. ttl_entry c k = Some e \<longrightarrow> ttl_registered c (UnixNano (ttl e)) = Some k))"


text \<open>
  The key whose entry an operation gives a new \<open>ttl\<close>, and that \<open>ttl\<close>, if it does:
  \<open>add\<close> always does, from its first reading of the clock; \<open>get\<close> does when it
  updates the age of an entry that has not expired, from its second reading. The write
  of the index that goes with it collides when the instant of the new \<open>ttl\<close> is
  registered for another key.
\<close>

definition ttl_writes ::
  "('k, 'v) ttlCache \<Rightarrow> clock \<Rightarrow> ('k, 'v) op \<Rightarrow> ('k \<times> instant) option" where
  "ttl_writes c clk p =
     (case p of
        Add k v \<Rightarrow> Some (k, clk 0 + ttl_expiry c)
      | Get k \<Rightarrow>
          (case ttl_entry c k of
             None \<Rightarrow> None
           | Some e \<Rightarrow>
               if \<not> clk 0 > ttl e \<and> ttl_updateAgeOnGet c then Some (k, clk 1 + ttl_expiry c)
               else None)
      | Remove k \<Rightarrow> None
      | Size \<Rightarrow> None
      | Clear \<Rightarrow> None)"

definition ttl_collides :: "('k, 'v) ttlCache \<Rightarrow> clock \<Rightarrow> ('k, 'v) op \<Rightarrow> bool" where
  "ttl_collides c clk p =
     (case ttl_writes c clk p of
        None \<Rightarrow> False
      | Some (k, t) \<Rightarrow>
          (case ttl_registered c (UnixNano t) of None \<Rightarrow> False | Some k' \<Rightarrow> k' \<noteq> k))"


text \<open>No operation of the run gives the entry of the key \<open>k\<close> a new \<open>ttl\<close>.\<close>

fun ttl_unrefreshed :: "('k, 'v) ttlCache \<Rightarrow> 'k \<Rightarrow> (clock \<times> ('k, 'v) op) list \<Rightarrow> bool" where
  "ttl_unrefreshed c k [] = True"
| "ttl_unrefreshed c k ((clk, p) # ps) =
     ((case ttl_writes c clk p of None \<Rightarrow> True | Some (k', t) \<Rightarrow> k' \<noteq> k) \<and>
      (case ttl_step c clk p of Inl f \<Rightarrow> True | Inr (r, c') \<Rightarrow> ttl_unrefreshed c' k ps))"

text \<open>
  The recency engine gives an entry a new \<open>ttl\<close> in \<open>add\<close> alone: no operation of the
  run adds the key \<open>k\<close>.
\<close>

definition adds :: "'k \<Rightarrow> ('k, 'v) op \<Rightarrow> bool" where
  "adds k p = (case p of Add k' v \<Rightarrow> k' = k | Get k' \<Rightarrow> False | Remove k' \<Rightarrow> False
               | Size \<Rightarrow> False | Clear \<Rightarrow> False)"

definition lru_unrefreshed :: "'k \<Rightarrow> (instant \<times> ('k, 'v) op) list \<Rightarrow> bool" where
  "lru_unrefreshed k ps = list_all (\<lambda>tp. \<not> adds k (snd tp)) ps"


text \<open>
  The reading of the clock that the iteration \<open>i\<close> of the walk of the purge takes, when
  it takes one. An iteration that finds the size over the bound takes none; when every
  iteration evicts an entry these are the first \<open>len(c.cache) - c.maxEntries\<close>
  iterations.
\<close>

definition purge_reading :: "('k, 'v) ttlCache \<Rightarrow> clock \<Rightarrow> nat \<Rightarrow> instant" where
  "purge_reading c clk i = clk (i - nat (ttl_len c - ttl_maxEntries c))"

text \<open>
  Two states of the expiry engine that differ at most in that the first has nil maps
  where the second has empty ones.
\<close>

definition ttl_nil_or_empty :: "('k, 'v) ttlCache \<Rightarrow> ('k, 'v) ttlCache \<Rightarrow> bool" where
  "ttl_nil_or_empty c1 c2 =
     (c1 = c2 \<or>
      (ttl_cache c1 = None \<and> ttl_expiration c1 = None \<and>
       c2 = c1\<lparr>ttl_cache := Some fmempty, ttl_expiration := Some fmempty\<rparr>))"

subsection \<open>The facade\<close>

text \<open>An engine in a well-formed state, and what a facade method leaves outside.\<close>

definition ICache_wf :: "('k, 'v) ICache \<Rightarrow> bool" where
  "ICache_wf e = (case e of LRU c \<Rightarrow> lru_inv c | TTLC c \<Rightarrow> ttl_sound c)"

definition env_after :: "facade_fault + ('c \<times> 'e) \<Rightarrow> 'e option" where
  "env_after r = (case r of Inl f \<Rightarrow> None | Inr (c, env) \<Rightarrow> Some env)"

subsection \<open>Concrete states\<close>

text \<open>A recency engine with two entries, key 2 in front of key 1, bound 2.\<close>

definition c3_state :: "(nat, string) lruCache" where
  "c3_state = \<lparr>lru_maxEntries = 2, lru_ll = Some [1, 0],
      lru_cache = Some [1 \<mapsto> 0, 2 \<mapsto> 1], lru_expiry = 10,
      lru_elems = [0 \<mapsto> \<lparr>key = 1, ttl = 10, val = ''a''\<rparr>, 1 \<mapsto> \<lparr>key = 2, ttl = 12, val = ''b''\<rparr>],
      lru_fresh = 2\<rparr>"

text \<open>A full expiry engine: keys 1 and 2, expiring at 10 and 11, bound 2.\<close>

definition c2_state :: "(nat, string) ttlCache" where
  "c2_state = \<lparr>ttl_maxEntries = 2, ttl_updateAgeOnGet = False,
      ttl_cache = Some (fmupd 2 \<lparr>key = 2, ttl = 11, val = ''b''\<rparr>
                         (fmupd 1 \<lparr>key = 1, ttl = 10, val = ''a''\<rparr> fmempty)),
      ttl_expiration = Some (fmupd 11 2 (fmupd 10 1 fmempty)), ttl_expiry = 10\<rparr>"

text \<open>A configuration with no TTL set, bound 20 and no handler.\<close>

definition unset_ttl_config :: "unit CacheConfig" where
  "unset_ttl_config = NewCacheConfig 0 20 None"

text \<open>
  A facade over an LRU engine whose three callbacks each count one up in the world, a
  natural number.
\<close>

definition counting :: "nat ChangeCallbackFunc" where
  "counting = \<lparr>AddFunc = Some Suc, GetFunc = Some Suc, RemoveFunc = Some Suc\<rparr>"

definition counted_cache :: "(nat, string, nat) Cache" where
  "counted_cache =
     NewCache (fst (LRUCacheMode (NewCacheConfig 0 20 (Some counting))))
       (NewCacheConfig 0 20 (Some counting))"

text \<open>The same facade with no handler: \<open>NewCacheConfig(0, 20, nil)\<close>.\<close>

definition nil_handler_cache :: "(nat, string, nat) Cache" where
  "nil_handler_cache =
     NewCache (fst (LRUCacheMode (NewCacheConfig 0 20 None :: nat CacheConfig)))
       (NewCacheConfig 0 20 None)"

section \<open>Verification\<close>

subsection \<open>Recency engine: removing and moving elements\<close>

lemma map_filter_remove1:
  assumes "distinct l"
  shows "List.map_filter f (remove1 a l) = List.map_filter f (filter (\<lambda>x. x \<noteq> a) l)"
proof -
  have "filter (\<lambda>x. x \<noteq> a) l = remove1 a l"
    using assms by (induction l) (auto simp: filter_id_conv remove1_idem)
  then show ?thesis by simp
qed

lemma map_filter_filter_key:
  assumes "\<forall>x \<in> set l. \<exists>kv. f x = Some kv \<and> (key kv = k \<longleftrightarrow> x = a)"
  shows "List.map_filter f (filter (\<lambda>x. x \<noteq> a) l) = filter (\<lambda>e. key e \<noteq> k) (List.map_filter f l)"
  using assms by (induction l) (auto simp: List.map_filter_simps)

lemma lru_inv_removeElement:
  assumes "lru_inv c" "lru_cache c = Some m" "m k = Some a"
  shows "\<exists>c' kv. lru_removeElement c a = Inr c' \<and> lru_inv c' \<and> lru_elems c a = Some kv \<and> key kv = k
     \<and> lru_entries c' = filter (\<lambda>e. key e \<noteq> k) (lru_entries c)
     \<and> lru_cache c' = Some (m(k := None)) \<and> lru_elems c' = lru_elems c
     \<and> lru_maxEntries c' = lru_maxEntries c \<and> lru_expiry c' = lru_expiry c"
proof -
  from assms obtain l where l: "lru_ll c = Some l" and d: "distinct l"
    and a1: "\<forall>e \<in> set l. e < lru_fresh c \<and> (\<exists>kv. lru_elems c e = Some kv \<and> m (key kv) = Some e)"
    and a2: "\<forall>k e. m k = Some e \<longrightarrow> e \<in> set l \<and> (\<exists>kv. lru_elems c e = Some kv \<and> key kv = k)"
    by (auto simp: lru_inv_def split: option.splits)
  from a2 assms(3) obtain kv where kv: "lru_elems c a = Some kv" "key kv = k" "a \<in> set l" by blast
  let ?c' = "c\<lparr>lru_ll := Some (remove1 a l), lru_cache := Some (m(k := None))\<rparr>"
  have r: "lru_removeElement c a = Inr ?c'"
    using l kv assms(2) by (simp add: lru_removeElement_def)
  have "\<forall>x \<in> set l. \<exists>kv. lru_elems c x = Some kv \<and> (key kv = k \<longleftrightarrow> x = a)"
    using a1 kv assms(3) by fastforce
  then have e: "lru_entries ?c' = filter (\<lambda>e. key e \<noteq> k) (lru_entries c)"
    using l d by (simp add: lru_entries_def map_filter_remove1 map_filter_filter_key)
  have i: "lru_inv ?c'"
  proof -
    have "distinct (remove1 a l)" using d by simp
    moreover have "\<forall>e \<in> set (remove1 a l). e < lru_fresh c \<and>
        (\<exists>kv. lru_elems c e = Some kv \<and> (m(k := None)) (key kv) = Some e)"
      using d a1 kv assms(3) by (metis fun_upd_apply option.inject set_remove1_eq set_remove1_subset subsetD DiffE insertI1)
    moreover have "\<forall>k' e. (m(k := None)) k' = Some e \<longrightarrow>
        e \<in> set (remove1 a l) \<and> (\<exists>kv. lru_elems c e = Some kv \<and> key kv = k')"
      using d a2 kv assms(3) by (metis fun_upd_apply option.distinct(1) option.inject set_remove1_eq DiffI singletonD)
    ultimately show ?thesis by (simp add: lru_inv_def)
  qed
  show ?thesis using r e i kv by simp
qed

lemma map_filter_MoveToFront:
  assumes "distinct l" "a \<in> set l" "f a = Some kv"
  shows "List.map_filter f (MoveToFront a l) = kv # List.map_filter f (filter (\<lambda>x. x \<noteq> a) l)"
  using assms by (simp add: MoveToFront_def List.map_filter_simps map_filter_remove1)

lemma lru_inv_MoveToFront:
  assumes "lru_inv c" "lru_cache c = Some m" "m k = Some a" "lru_ll c = Some l"
  shows "lru_inv (c\<lparr>lru_ll := Some (MoveToFront a l)\<rparr>) \<and>
         (\<exists>kv. lru_elems c a = Some kv \<and> key kv = k \<and>
            lru_entries (c\<lparr>lru_ll := Some (MoveToFront a l)\<rparr>) =
              kv # filter (\<lambda>e. key e \<noteq> k) (lru_entries c))"
proof -
  from assms have d: "distinct l"
    and a1: "\<forall>e \<in> set l. e < lru_fresh c \<and> (\<exists>kv. lru_elems c e = Some kv \<and> m (key kv) = Some e)"
    and a2: "\<forall>k e. m k = Some e \<longrightarrow> e \<in> set l \<and> (\<exists>kv. lru_elems c e = Some kv \<and> key kv = k)"
    by (auto simp: lru_inv_def split: option.splits)
  from a2 assms(3) obtain kv where kv: "lru_elems c a = Some kv" "key kv = k" "a \<in> set l" by blast
  have s: "set (MoveToFront a l) = set l" "distinct (MoveToFront a l)"
    using d kv(3) by (auto simp: MoveToFront_def)
  have i: "lru_inv (c\<lparr>lru_ll := Some (MoveToFront a l)\<rparr>)"
    using s a1 a2 assms(2) by (simp add: lru_inv_def)
  have "\<forall>x \<in> set l. \<exists>kv. lru_elems c x = Some kv \<and> (key kv = k \<longleftrightarrow> x = a)"
    using a1 kv assms(3) by fastforce
  then have "lru_entries (c\<lparr>lru_ll := Some (MoveToFront a l)\<rparr>) =
      kv # filter (\<lambda>e. key e \<noteq> k) (lru_entries c)"
    using d kv assms(4) by (simp add: lru_entries_def map_filter_MoveToFront map_filter_filter_key)
  then show ?thesis using i kv by simp
qed

text \<open>
  Claim C3. In every well-formed state of the recency engine, \<open>get\<close> of a key that the
  map does not hold returns not-found and leaves the state as it is. For a key the map
  holds, with entry \<open>e\<close>: if \<open>now\<close> is past \<open>ttl e\<close>, the result is not-found and
  the entry is gone from the sequence and the key from the map; otherwise the result is
  \<open>(val e, true)\<close>, the entry is at the front of the sequence, the other entries keep
  their order, and the map holds the same keys. No branch faults.
\<close>

theorem lru_get_spec:
  assumes "lru_inv c"
  shows "(k \<notin> lru_dom c \<longrightarrow> lru_get c now k = Inr (None, c)) \<and>
         (k \<in> lru_dom c \<longrightarrow>
            (\<exists>e. lru_lookup c k = Some e \<and> key e = k \<and>
               (if now > ttl e
                then \<exists>c'. lru_get c now k = Inr (None, c') \<and> lru_inv c' \<and>
                       lru_entries c' = filter (\<lambda>x. key x \<noteq> k) (lru_entries c) \<and>
                       lru_dom c' = lru_dom c - {k}
                else \<exists>c'. lru_get c now k = Inr (Some (val e), c') \<and> lru_inv c' \<and>
                       lru_entries c' = e # filter (\<lambda>x. key x \<noteq> k) (lru_entries c) \<and>
                       lru_dom c' = lru_dom c)))"
proof (intro conjI impI)
  assume "k \<notin> lru_dom c"
  then show "lru_get c now k = Inr (None, c)"
    by (auto simp: lru_dom_def lru_get_def split: option.splits)
next
  assume "k \<in> lru_dom c"
  then obtain m a where m: "lru_cache c = Some m" "m k = Some a"
    by (auto simp: lru_dom_def split: option.splits)
  with assms obtain l where l: "lru_ll c = Some l"
    by (auto simp: lru_inv_def split: option.splits)
  from lru_inv_removeElement [OF assms m] obtain c' kv where
    r: "lru_removeElement c a = Inr c'" "lru_inv c'" "lru_elems c a = Some kv" "key kv = k"
       "lru_entries c' = filter (\<lambda>e. key e \<noteq> k) (lru_entries c)"
       "lru_cache c' = Some (m(k := None))"
    by blast
  from lru_inv_MoveToFront [OF assms m l] r(3) have
    f: "lru_inv (c\<lparr>lru_ll := Some (MoveToFront a l)\<rparr>)"
       "lru_entries (c\<lparr>lru_ll := Some (MoveToFront a l)\<rparr>) =
          kv # filter (\<lambda>e. key e \<noteq> k) (lru_entries c)"
    by auto
  have lk: "lru_lookup c k = Some kv" using m r(3) by (simp add: lru_lookup_def)
  show "\<exists>e. lru_lookup c k = Some e \<and> key e = k \<and>
               (if now > ttl e
                then \<exists>c'. lru_get c now k = Inr (None, c') \<and> lru_inv c' \<and>
                       lru_entries c' = filter (\<lambda>x. key x \<noteq> k) (lru_entries c) \<and>
                       lru_dom c' = lru_dom c - {k}
                else \<exists>c'. lru_get c now k = Inr (Some (val e), c') \<and> lru_inv c' \<and>
                       lru_entries c' = e # filter (\<lambda>x. key x \<noteq> k) (lru_entries c) \<and>
                       lru_dom c' = lru_dom c)"
  proof (cases "now > ttl kv")
    case True
    then have "lru_get c now k = Inr (None, c')"
      using m r(1,3) by (simp add: lru_get_def lru_remove_def)
    moreover have "lru_dom c' = lru_dom c - {k}"
      using r(6) m by (auto simp: lru_dom_def)
    ultimately show ?thesis using True lk r by auto
  next
    case False
    then have "lru_get c now k = Inr (Some (val kv), c\<lparr>lru_ll := Some (MoveToFront a l)\<rparr>)"
      using m r(3) l by (simp add: lru_get_def)
    moreover have "lru_dom (c\<lparr>lru_ll := Some (MoveToFront a l)\<rparr>) = lru_dom c"
      by (simp add: lru_dom_def)
    ultimately show ?thesis using False lk r(4) f by auto
  qed
qed

theorem lru_get_spec_witness:
  "lru_inv c3_state \<and> 1 \<in> lru_dom c3_state \<and>
   (\<exists>c'. lru_get c3_state 5 1 = Inr (Some ''a'', c') \<and> lru_inv c' \<and>
      lru_entries c' = [\<lparr>key = 1, ttl = 10, val = ''a''\<rparr>, \<lparr>key = 2, ttl = 12, val = ''b''\<rparr>])"
proof -
  have i: "lru_inv c3_state"
    by (auto simp: lru_inv_def c3_state_def split: if_splits)
  have d: "1 \<in> lru_dom c3_state"
    by (simp add: c3_state_def lru_dom_def)
  have l: "lru_lookup c3_state 1 = Some \<lparr>key = 1, ttl = 10, val = ''a''\<rparr>"
    by (simp add: c3_state_def lru_lookup_def)
  have e: "lru_entries c3_state = [\<lparr>key = 2, ttl = 12, val = ''b''\<rparr>, \<lparr>key = 1, ttl = 10, val = ''a''\<rparr>]"
    by (simp add: c3_state_def lru_entries_def List.map_filter_simps)
  from lru_get_spec [OF i, of 1 5] d l e have
    "\<exists>c'. lru_get c3_state 5 1 = Inr (Some ''a'', c') \<and> lru_inv c' \<and>
      lru_entries c' = [\<lparr>key = 1, ttl = 10, val = ''a''\<rparr>, \<lparr>key = 2, ttl = 12, val = ''b''\<rparr>]"
    by auto
  with i d show ?thesis by simp
qed

subsection \<open>Recency engine: what the invariant gives\<close>

lemma lru_inv_cases:
  assumes "lru_inv c"
  obtains (nil) "lru_ll c = None" "lru_cache c = None"
  | (live) l m where "lru_ll c = Some l" "lru_cache c = Some m" "distinct l"
      "\<forall>e \<in> set l. e < lru_fresh c \<and> (\<exists>kv. lru_elems c e = Some kv \<and> m (key kv) = Some e)"
      "\<forall>k e. m k = Some e \<longrightarrow> e \<in> set l \<and> (\<exists>kv. lru_elems c e = Some kv \<and> key kv = k)"
  using assms by (auto simp: lru_inv_def split: option.splits)

lemma map_filter_all_Some:
  assumes "\<forall>x \<in> set l. \<exists>y. f x = Some y"
  shows "List.map_filter f l = map (\<lambda>x. the (f x)) l"
  using assms by (induction l) (auto simp: List.map_filter_simps)

lemma lru_inv_keys:
  assumes "lru_inv c"
  shows "distinct (lru_keys c)" and "set (lru_keys c) = lru_dom c"
    and "lru_ll c = Some l \<Longrightarrow> length (lru_entries c) = length l"
proof -
  show "distinct (lru_keys c)"
  using assms
  proof (cases rule: lru_inv_cases)
    case nil then show ?thesis by (simp add: lru_keys_def lru_entries_def)
  next
    case (live l m)
    have e: "lru_entries c = map (\<lambda>x. the (lru_elems c x)) l"
      using live(1,4) by (auto simp: lru_entries_def intro: map_filter_all_Some)
    have "inj_on (\<lambda>x. key (the (lru_elems c x))) (set l)"
      using live(4) by (intro inj_onI) (metis option.inject option.sel)
    then show ?thesis using live(3) by (simp add: lru_keys_def e distinct_map comp_def)
  qed
  show "set (lru_keys c) = lru_dom c"
  using assms
  proof (cases rule: lru_inv_cases)
    case nil then show ?thesis by (simp add: lru_keys_def lru_entries_def lru_dom_def)
  next
    case (live l m)
    have e: "lru_entries c = map (\<lambda>x. the (lru_elems c x)) l"
      using live(1,4) by (auto simp: lru_entries_def intro: map_filter_all_Some)
    show ?thesis
    proof (intro set_eqI iffI)
      fix k assume "k \<in> set (lru_keys c)"
      then obtain x where "x \<in> set l" "k = key (the (lru_elems c x))"
        by (auto simp: lru_keys_def e)
      then have "m k = Some x" using live(4) by fastforce
      then show "k \<in> lru_dom c" using live(2) by (auto simp: lru_dom_def)
    next
      fix k assume "k \<in> lru_dom c"
      then obtain x where "m k = Some x" using live(2) by (auto simp: lru_dom_def)
      then have "x \<in> set l" "key (the (lru_elems c x)) = k" using live(5) by fastforce+
      then show "k \<in> set (lru_keys c)" by (auto simp: lru_keys_def e)
    qed
  qed
  show "lru_ll c = Some l \<Longrightarrow> length (lru_entries c) = length l"
  using assms
  proof (cases rule: lru_inv_cases)
    case nil then show "lru_ll c = Some l \<Longrightarrow> ?thesis" by simp
  next
    case (live l' m)
    have e: "lru_entries c = map (\<lambda>x. the (lru_elems c x)) l'"
      using live(1,4) by (auto simp: lru_entries_def intro: map_filter_all_Some)
    show "lru_ll c = Some l \<Longrightarrow> ?thesis" using live(1) e by simp
  qed
qed

lemma find_map_filter_key:
  assumes "\<forall>x \<in> set l. \<exists>kv. f x = Some kv \<and> (key kv = k \<longleftrightarrow> x = a)"
  shows "find (\<lambda>e. key e = k) (List.map_filter f l) = (if a \<in> set l then f a else None)"
  using assms by (induction l) (auto simp: List.map_filter_simps)

lemma lru_lookup_find:
  assumes "lru_inv c"
  shows "lru_lookup c k = find (\<lambda>e. key e = k) (lru_entries c)"
using assms
  proof (cases rule: lru_inv_cases)
  case nil then show ?thesis by (simp add: lru_lookup_def lru_entries_def)
next
  case (live l m)
  show ?thesis
  proof (cases "m k")
    case None
    then have "\<forall>x \<in> set l. \<exists>kv. lru_elems c x = Some kv \<and> key kv \<noteq> k"
      using live(4) by fastforce
    then have "find (\<lambda>e. key e = k) (List.map_filter (lru_elems c) l) = None"
      by (induction l) (auto simp: List.map_filter_simps)
    then show ?thesis using None live(1,2) by (simp add: lru_lookup_def lru_entries_def)
  next
    case (Some a)
    then have "\<forall>x \<in> set l. \<exists>kv. lru_elems c x = Some kv \<and> (key kv = k \<longleftrightarrow> x = a)"
      using live(4,5) by fastforce
    from find_map_filter_key [OF this] Some live show ?thesis
      by (simp add: lru_lookup_def lru_entries_def)
  qed
qed

lemma filter_key_last:
  assumes "distinct (map key es)" "es \<noteq> []"
  shows "filter (\<lambda>e. key e \<noteq> key (last es)) es = butlast es"
  using assms
proof (induction es)
  case Nil then show ?case by simp
next
  case (Cons x xs)
  show ?case
  proof (cases "xs = []")
    case True then show ?thesis by simp
  next
    case False
    then have "key (last xs) \<in> key ` set xs" by simp
    then have "key x \<noteq> key (last xs)" using Cons.prems(1) by auto
    then show ?thesis using Cons False by simp
  qed
qed

subsection \<open>Recency engine: \<open>add\<close>\<close>

lemma map_filter_agree:
  assumes "\<forall>x \<in> set l. f x = g x"
  shows "List.map_filter f l = List.map_filter g l"
  using assms by (induction l) (auto simp: List.map_filter_simps split: option.splits)

lemma lru_inv_push:
  assumes "lru_inv c" "lru_ll c = Some l" "lru_cache c = Some m" "m k = None" "key kv = k"
  defines "c1 \<equiv> c\<lparr>lru_ll := Some (lru_fresh c # l),
                      lru_elems := (lru_elems c)(lru_fresh c \<mapsto> kv),
                      lru_fresh := Suc (lru_fresh c),
                      lru_cache := Some (m(k \<mapsto> lru_fresh c))\<rparr>"
  shows "lru_inv c1" and "lru_entries c1 = kv # lru_entries c"
proof -
  from assms(1-3) have d: "distinct l"
    and a1: "\<forall>e \<in> set l. e < lru_fresh c \<and> (\<exists>kv. lru_elems c e = Some kv \<and> m (key kv) = Some e)"
    and a2: "\<forall>k e. m k = Some e \<longrightarrow> e \<in> set l \<and> (\<exists>kv. lru_elems c e = Some kv \<and> key kv = k)"
    by (auto simp: lru_inv_def split: option.splits)
  have n: "lru_fresh c \<notin> set l" using a1 by auto
  have b1: "\<forall>e \<in> set (lru_fresh c # l). e < Suc (lru_fresh c) \<and>
      (\<exists>kv'. ((lru_elems c)(lru_fresh c \<mapsto> kv)) e = Some kv' \<and> (m(k \<mapsto> lru_fresh c)) (key kv') = Some e)"
  proof
    fix e assume e: "e \<in> set (lru_fresh c # l)"
    show "e < Suc (lru_fresh c) \<and>
      (\<exists>kv'. ((lru_elems c)(lru_fresh c \<mapsto> kv)) e = Some kv' \<and> (m(k \<mapsto> lru_fresh c)) (key kv') = Some e)"
    proof (cases "e = lru_fresh c")
      case True then show ?thesis using assms(5) by simp
    next
      case False
      with e have el: "e \<in> set l" by simp
      with a1 obtain kv' where k': "e < lru_fresh c" "lru_elems c e = Some kv'" "m (key kv') = Some e"
        by blast
      then have "key kv' \<noteq> k" using assms(4) by auto
      then show ?thesis using False k' by simp
    qed
  qed
  have b2: "\<forall>k' e. (m(k \<mapsto> lru_fresh c)) k' = Some e \<longrightarrow>
      e \<in> set (lru_fresh c # l) \<and> (\<exists>kv'. ((lru_elems c)(lru_fresh c \<mapsto> kv)) e = Some kv' \<and> key kv' = k')"
  proof (intro allI impI)
    fix k' e assume h: "(m(k \<mapsto> lru_fresh c)) k' = Some e"
    show "e \<in> set (lru_fresh c # l) \<and> (\<exists>kv'. ((lru_elems c)(lru_fresh c \<mapsto> kv)) e = Some kv' \<and> key kv' = k')"
    proof (cases "k' = k")
      case True then show ?thesis using h assms(5) by simp
    next
      case False
      then have "m k' = Some e" using h by simp
      with a2 have "e \<in> set l" "\<exists>kv. lru_elems c e = Some kv \<and> key kv = k'" by blast+
      then show ?thesis using n by auto
    qed
  qed
  show "lru_inv c1" using d n b1 b2 by (simp add: lru_inv_def c1_def)
  have "List.map_filter ((lru_elems c)(lru_fresh c \<mapsto> kv)) l = List.map_filter (lru_elems c) l"
    using n by (intro map_filter_agree) auto
  then show "lru_entries c1 = kv # lru_entries c"
    using assms(2) by (simp add: lru_entries_def c1_def List.map_filter_simps)
qed

lemma lru_inv_refresh:
  assumes "lru_inv c" "lru_ll c = Some l" "lru_cache c = Some m" "m k = Some a"
    "lru_elems c a = Some e" "key e' = key e"
  defines "c1 \<equiv> c\<lparr>lru_ll := Some (MoveToFront a l), lru_elems := (lru_elems c)(a \<mapsto> e')\<rparr>"
  shows "lru_inv c1" and "lru_entries c1 = e' # filter (\<lambda>x. key x \<noteq> k) (lru_entries c)"
proof -
  from assms(1-3) have d: "distinct l"
    and a1: "\<forall>e \<in> set l. e < lru_fresh c \<and> (\<exists>kv. lru_elems c e = Some kv \<and> m (key kv) = Some e)"
    and a2: "\<forall>k e. m k = Some e \<longrightarrow> e \<in> set l \<and> (\<exists>kv. lru_elems c e = Some kv \<and> key kv = k)"
    by (auto simp: lru_inv_def split: option.splits)
  from a2 assms(4,5) have al: "a \<in> set l" and ke: "key e = k" by fastforce+
  have s: "set (MoveToFront a l) = set l" "distinct (MoveToFront a l)"
    using d al by (auto simp: MoveToFront_def)
  have b1: "\<forall>x \<in> set l. x < lru_fresh c \<and>
      (\<exists>kv. ((lru_elems c)(a \<mapsto> e')) x = Some kv \<and> m (key kv) = Some x)"
    using a1 assms(4,5,6) ke by fastforce
  have b2: "\<forall>k' x. m k' = Some x \<longrightarrow>
      x \<in> set l \<and> (\<exists>kv. ((lru_elems c)(a \<mapsto> e')) x = Some kv \<and> key kv = k')"
    using a2 assms(4,5,6) ke by fastforce
  show "lru_inv c1" using s b1 b2 assms(3) by (simp add: lru_inv_def c1_def)
  have q: "\<forall>x \<in> set l. \<exists>kv. lru_elems c x = Some kv \<and> (key kv = k \<longleftrightarrow> x = a)"
    using a1 assms(4,5) ke by fastforce
  have "List.map_filter ((lru_elems c)(a \<mapsto> e')) (filter (\<lambda>x. x \<noteq> a) l) =
        List.map_filter (lru_elems c) (filter (\<lambda>x. x \<noteq> a) l)"
    by (intro map_filter_agree) auto
  then have "List.map_filter ((lru_elems c)(a \<mapsto> e')) (MoveToFront a l) =
      e' # filter (\<lambda>x. key x \<noteq> k) (List.map_filter (lru_elems c) l)"
    using d al map_filter_filter_key [OF q] by (simp add: map_filter_MoveToFront)
  then show "lru_entries c1 = e' # filter (\<lambda>x. key x \<noteq> k) (lru_entries c)"
    using assms(2) by (simp add: lru_entries_def c1_def)
qed

lemma lru_inv_last:
  assumes "lru_inv c" "lru_ll c = Some l" "lru_cache c = Some m" "l \<noteq> []"
  shows "\<exists>kv. lru_elems c (last l) = Some kv \<and> m (key kv) = Some (last l) \<and>
           last (lru_entries c) = kv"
proof -
  from assms(1-3) have
    a1: "\<forall>e \<in> set l. e < lru_fresh c \<and> (\<exists>kv. lru_elems c e = Some kv \<and> m (key kv) = Some e)"
    by (auto simp: lru_inv_def split: option.splits)
  have e: "lru_entries c = map (\<lambda>x. the (lru_elems c x)) l"
    using assms(2) a1 by (auto simp: lru_entries_def intro: map_filter_all_Some)
  have "last l \<in> set l" using assms(4) by simp
  with a1 obtain kv where "lru_elems c (last l) = Some kv" "m (key kv) = Some (last l)" by blast
  then show ?thesis using e assms(4) by (simp add: last_map)
qed

lemma lru_removeOldest_seq:
  assumes "lru_inv c" "lru_ll c = Some l" "l \<noteq> []"
  shows "\<exists>c'. lru_removeOldest c = Inr c' \<and> lru_inv c' \<and>
           lru_entries c' = butlast (lru_entries c) \<and>
           lru_maxEntries c' = lru_maxEntries c \<and> lru_expiry c' = lru_expiry c \<and>
           lru_cache c' \<noteq> None"
proof -
  from assms(1,2) obtain m where m: "lru_cache c = Some m"
    by (auto simp: lru_inv_def split: option.splits)
  from lru_inv_last [OF assms(1,2) m assms(3)] obtain kv where
    kv: "lru_elems c (last l) = Some kv" "m (key kv) = Some (last l)" "last (lru_entries c) = kv"
    by blast
  from lru_inv_removeElement [OF assms(1) m kv(2)] obtain c' where
    c': "lru_removeElement c (last l) = Inr c'" "lru_inv c'"
        "lru_entries c' = filter (\<lambda>e. key e \<noteq> key kv) (lru_entries c)"
        "lru_cache c' = Some (m(key kv := None))"
        "lru_maxEntries c' = lru_maxEntries c" "lru_expiry c' = lru_expiry c"
    by blast
  have ne: "lru_entries c \<noteq> []"
    using lru_inv_keys(3) [OF assms(1,2)] assms(3) by auto
  have "distinct (map key (lru_entries c))"
    using lru_inv_keys(1) [OF assms(1)] by (simp add: lru_keys_def)
  from filter_key_last [OF this ne] kv(3) c'(3)
  have "lru_entries c' = butlast (lru_entries c)" by simp
  moreover have "lru_removeOldest c = Inr c'"
    using m assms(2,3) c'(1) by (simp add: lru_removeOldest_def Back_def)
  ultimately show ?thesis using c' by simp
qed

lemma lru_add_seq:
  assumes "lru_inv c"
  shows "\<exists>c'. lru_add c now k v = Inr c' \<and> lru_inv c' \<and>
           lru_entries c' = seq_add (lru_maxEntries c) (lru_expiry c) now k v (lru_entries c) \<and>
           lru_maxEntries c' = lru_maxEntries c \<and> lru_expiry c' = lru_expiry c \<and>
           lru_cache c' \<noteq> None"
proof -
  define c0 where "c0 = (if lru_cache c = None
               then c\<lparr>lru_cache := Some Map.empty, lru_ll := Some []\<rparr> else c)"
  have i0: "lru_inv c0" and e0: "lru_entries c0 = lru_entries c"
    and p0: "lru_maxEntries c0 = lru_maxEntries c" "lru_expiry c0 = lru_expiry c"
    using assms by (auto simp: c0_def lru_inv_def lru_entries_def split: option.splits)
  have "lru_cache c0 \<noteq> None" by (simp add: c0_def)
  with i0 obtain l m where lm: "lru_ll c0 = Some l" "lru_cache c0 = Some m"
    by (auto simp: lru_inv_def split: option.splits)
  have lk: "lru_lookup c0 k = find (\<lambda>e. key e = k) (lru_entries c)"
    using lru_lookup_find [OF i0] e0 by simp
  show ?thesis
  proof (cases "m k")
    case (Some a)
    from i0 lm Some obtain e where e: "lru_elems c0 a = Some e"
      by (fastforce simp: lru_inv_def)
    let ?e' = "e\<lparr>ttl := now + lru_expiry c0, val := v\<rparr>"
    let ?c' = "c0\<lparr>lru_ll := Some (MoveToFront a l), lru_elems := (lru_elems c0)(a \<mapsto> ?e')\<rparr>"
    have "lru_add c now k v = Inr ?c'"
      using lm Some e unfolding lru_add_def c0_def [symmetric] by (simp add: Let_def)
    moreover have "lru_inv ?c'" "lru_entries ?c' = ?e' # filter (\<lambda>x. key x \<noteq> k) (lru_entries c0)"
      using lru_inv_refresh [OF i0 lm Some e, of ?e'] by simp_all
    moreover have "find (\<lambda>e. key e = k) (lru_entries c) = Some e"
      using lk lm Some e by (simp add: lru_lookup_def)
    ultimately show ?thesis using e0 p0 lm by (simp add: seq_add_def)
  next
    case None
    let ?kv = "\<lparr>key = k, ttl = now + lru_expiry c0, val = v\<rparr>"
    let ?c1 = "c0\<lparr>lru_ll := Some (lru_fresh c0 # l),
                      lru_elems := (lru_elems c0)(lru_fresh c0 \<mapsto> ?kv),
                      lru_fresh := Suc (lru_fresh c0),
                      lru_cache := Some (m(k \<mapsto> lru_fresh c0))\<rparr>"
    have i1: "lru_inv ?c1" and e1: "lru_entries ?c1 = ?kv # lru_entries c0"
      using lru_inv_push [OF i0 lm None, of ?kv] by simp_all
    have f: "find (\<lambda>e. key e = k) (lru_entries c) = None"
      using lk lm None by (simp add: lru_lookup_def)
    have len: "length (lru_entries c) = length l"
      using lru_inv_keys(3) [OF i0 lm(1)] e0 by simp
    show ?thesis
    proof (cases "lru_maxEntries c0 \<noteq> 0 \<and> int (length (lru_fresh c0 # l)) > lru_maxEntries c0")
      case True
      then have "lru_add c now k v = lru_removeOldest ?c1"
        using lm None unfolding lru_add_def c0_def [symmetric] by (simp add: Let_def)
      moreover from lru_removeOldest_seq [OF i1, of "lru_fresh c0 # l"] obtain c' where
        "lru_removeOldest ?c1 = Inr c'" "lru_inv c'" "lru_entries c' = butlast (lru_entries ?c1)"
        "lru_maxEntries c' = lru_maxEntries ?c1" "lru_expiry c' = lru_expiry ?c1"
        "lru_cache c' \<noteq> None"
        by auto
      ultimately show ?thesis using True e1 e0 p0 f len by (auto simp: seq_add_def Let_def)
    next
      case False
      then have "lru_add c now k v = Inr ?c1"
        using lm None unfolding lru_add_def c0_def [symmetric] by (auto simp: Let_def)
      then show ?thesis using False i1 e1 e0 p0 f len by (auto simp: seq_add_def Let_def)
    qed
  qed
qed

subsection \<open>Recency engine: every operation, on the sequence of entries\<close>

lemma lru_remove_seq:
  assumes "lru_inv c"
  shows "\<exists>c'. lru_remove c k = Inr c' \<and> lru_inv c' \<and>
           lru_entries c' = filter (\<lambda>x. key x \<noteq> k) (lru_entries c) \<and>
           lru_maxEntries c' = lru_maxEntries c \<and> lru_expiry c' = lru_expiry c"
proof (cases "k \<in> lru_dom c")
  case True
  then obtain m a where m: "lru_cache c = Some m" "m k = Some a"
    by (auto simp: lru_dom_def split: option.splits)
  from lru_inv_removeElement [OF assms m] m show ?thesis
    by (auto simp: lru_remove_def)
next
  case False
  then have "k \<notin> set (lru_keys c)" using lru_inv_keys(2) [OF assms] by simp
  then have "filter (\<lambda>x. key x \<noteq> k) (lru_entries c) = lru_entries c"
    by (auto simp: lru_keys_def filter_id_conv)
  moreover have "lru_remove c k = Inr c"
    using False by (auto simp: lru_remove_def lru_dom_def split: option.splits)
  ultimately show ?thesis using assms by simp
qed

lemma lru_get_seq:
  assumes "lru_inv c"
  shows "\<exists>c'. lru_get c now k = Inr (fst (seq_get now k (lru_entries c)), c') \<and> lru_inv c' \<and>
           lru_entries c' = snd (seq_get now k (lru_entries c)) \<and>
           lru_maxEntries c' = lru_maxEntries c \<and> lru_expiry c' = lru_expiry c"
proof (cases "k \<in> lru_dom c")
  case False
  then have "lru_lookup c k = None"
    by (auto simp: lru_lookup_def lru_dom_def split: option.splits)
  then have "find (\<lambda>e. key e = k) (lru_entries c) = None"
    using lru_lookup_find [OF assms] by simp
  moreover have "lru_get c now k = Inr (None, c)"
    using False by (auto simp: lru_get_def lru_dom_def split: option.splits)
  ultimately show ?thesis using assms by (simp add: seq_get_def)
next
  case True
  then obtain m a where m: "lru_cache c = Some m" "m k = Some a"
    by (auto simp: lru_dom_def split: option.splits)
  with assms obtain l where l: "lru_ll c = Some l"
    by (auto simp: lru_inv_def split: option.splits)
  from lru_inv_removeElement [OF assms m] obtain c' kv where
    r: "lru_removeElement c a = Inr c'" "lru_inv c'" "lru_elems c a = Some kv" "key kv = k"
       "lru_entries c' = filter (\<lambda>e. key e \<noteq> k) (lru_entries c)"
       "lru_maxEntries c' = lru_maxEntries c" "lru_expiry c' = lru_expiry c"
    by blast
  from lru_inv_MoveToFront [OF assms m l] r(3) have
    f: "lru_inv (c\<lparr>lru_ll := Some (MoveToFront a l)\<rparr>)"
       "lru_entries (c\<lparr>lru_ll := Some (MoveToFront a l)\<rparr>) =
          kv # filter (\<lambda>e. key e \<noteq> k) (lru_entries c)"
    by auto
  have lk: "find (\<lambda>e. key e = k) (lru_entries c) = Some kv"
    using lru_lookup_find [OF assms, of k] m r(3) by (simp add: lru_lookup_def)
  show ?thesis
  proof (cases "now > ttl kv")
    case True
    then have "lru_get c now k = Inr (None, c')"
      using m r(1,3) by (simp add: lru_get_def lru_remove_def)
    then show ?thesis using True lk r by (auto simp: seq_get_def)
  next
    case False
    then have "lru_get c now k = Inr (Some (val kv), c\<lparr>lru_ll := Some (MoveToFront a l)\<rparr>)"
      using m r(3) l by (simp add: lru_get_def)
    then show ?thesis using False lk f by (auto simp: seq_get_def)
  qed
qed

lemma lru_size_seq:
  assumes "lru_inv c"
  shows "lru_size c = Inr (int (length (lru_entries c)))"
  using assms
proof (cases rule: lru_inv_cases)
  case nil then show ?thesis by (simp add: lru_size_def lru_entries_def)
next
  case (live l m)
  then show ?thesis using lru_inv_keys(3) [OF assms live(1)] by (simp add: lru_size_def)
qed

lemma lru_clear_seq: "lru_inv (lru_clear c)" "lru_entries (lru_clear c) = []"
  "lru_maxEntries (lru_clear c) = lru_maxEntries c" "lru_expiry (lru_clear c) = lru_expiry c"
  by (simp_all add: lru_clear_def lru_inv_def lru_entries_def)

lemma lru_step_seq:
  assumes "lru_inv c"
  shows "\<exists>c'. lru_step c now p =
             Inr (fst (seq_step (lru_maxEntries c) (lru_expiry c) now p (lru_entries c)), c') \<and>
           lru_inv c' \<and>
           lru_entries c' = snd (seq_step (lru_maxEntries c) (lru_expiry c) now p (lru_entries c)) \<and>
           lru_maxEntries c' = lru_maxEntries c \<and> lru_expiry c' = lru_expiry c"
proof (cases p)
  case (Add k v)
  from lru_add_seq [OF assms, of now k v] show ?thesis
    by (auto simp: Add lru_step_def seq_step_def)
next
  case (Get k)
  from lru_get_seq [OF assms, of now k] show ?thesis
    by (auto simp: Get lru_step_def seq_step_def)
next
  case (Remove k)
  from lru_remove_seq [OF assms, of k] show ?thesis
    by (auto simp: Remove lru_step_def seq_step_def)
next
  case Size
  then show ?thesis using assms lru_size_seq [OF assms] by (simp add: lru_step_def seq_step_def)
next
  case Clear
  then show ?thesis using lru_clear_seq [of c] by (simp add: lru_step_def seq_step_def)
qed

lemma lru_run_seq:
  assumes "lru_inv c"
  shows "\<exists>c'. lru_run c ps =
             Inr (fst (seq_run (lru_maxEntries c) (lru_expiry c) (lru_entries c) ps), c') \<and>
           lru_inv c' \<and>
           lru_entries c' = snd (seq_run (lru_maxEntries c) (lru_expiry c) (lru_entries c) ps) \<and>
           lru_maxEntries c' = lru_maxEntries c \<and> lru_expiry c' = lru_expiry c"
  using assms
proof (induction ps arbitrary: c)
  case Nil
  then show ?case by simp
next
  case (Cons a ps)
  obtain now p where a: "a = (now, p)" by (cases a)
  from lru_step_seq [OF Cons.prems, of now p] obtain c1 where
    c1: "lru_step c now p =
           Inr (fst (seq_step (lru_maxEntries c) (lru_expiry c) now p (lru_entries c)), c1)"
        "lru_inv c1"
        "lru_entries c1 = snd (seq_step (lru_maxEntries c) (lru_expiry c) now p (lru_entries c))"
        "lru_maxEntries c1 = lru_maxEntries c" "lru_expiry c1 = lru_expiry c"
    by blast
  from Cons.IH [OF c1(2)] c1 show ?case
    by (auto simp: a)
qed

subsection \<open>Recency engine: the bound\<close>

lemma find_Some_filter_length:
  assumes "find P es = Some e"
  shows "Suc (length (filter (\<lambda>x. \<not> P x) es)) \<le> length es"
proof -
  from assms have "e \<in> set es" "P e" by (auto simp: find_Some_iff)
  then have "length (filter (\<lambda>x. \<not> P x) es) < length es"
    by (intro length_filter_less) auto
  then show ?thesis by simp
qed

lemma seq_step_bound:
  assumes "0 < M" "int (length es) \<le> M"
  shows "int (length (snd (seq_step M d now p es))) \<le> M"
proof (cases p)
  case (Add k v)
  show ?thesis
  proof (cases "find (\<lambda>e. key e = k) es")
    case None
    then show ?thesis using assms by (auto simp: Add seq_step_def seq_add_def Let_def)
  next
    case (Some e)
    from find_Some_filter_length [OF this] assms Some show ?thesis
      by (simp add: Add seq_step_def seq_add_def)
  qed
next
  case (Get k)
  show ?thesis
  proof (cases "find (\<lambda>e. key e = k) es")
    case None
    then show ?thesis using assms by (simp add: Get seq_step_def seq_get_def)
  next
    case (Some e)
    from find_Some_filter_length [OF this] assms Some show ?thesis
      by (simp add: Get seq_step_def seq_get_def)
  qed
next
  case (Remove k)
  have "int (length (filter (\<lambda>x. key x \<noteq> k) es)) \<le> int (length es)" by simp
  with assms(2) have "int (length (filter (\<lambda>x. key x \<noteq> k) es)) \<le> M" by linarith
  then show ?thesis by (simp add: Remove seq_step_def)
next
  case Size then show ?thesis using assms by (simp add: seq_step_def)
next
  case Clear then show ?thesis using assms by (simp add: seq_step_def)
qed

lemma seq_run_bound:
  assumes "0 < M" "int (length es) \<le> M"
  shows "int (length (snd (seq_run M d es ps))) \<le> M"
  using assms(2)
proof (induction ps arbitrary: es)
  case Nil then show ?case by simp
next
  case (Cons a ps)
  obtain now p where a: "a = (now, p)" by (cases a)
  from Cons.IH [OF seq_step_bound [OF assms(1) Cons.prems, of d now p]] show ?case
    by (simp add: a)
qed

lemma newLRU_inv: "lru_inv (newLRU M d)" "lru_entries (newLRU M d) = []"
  "lru_maxEntries (newLRU M d) = M" "lru_expiry (newLRU M d) = d"
  by (simp_all add: newLRU_def lru_inv_def lru_entries_def List.map_filter_simps)

text \<open>
  Claim C5, as amended. After every finite sequence of operations on a newly constructed
  recency engine, no operation has faulted, and in the state reached: list and map are
  nil together and each address the map holds is that of the one list element with that
  key (\<open>lru_inv\<close>); the keys along the sequence are pairwise distinct and are exactly
  the keys of the map; \<open>size\<close> is the length of the sequence; and when \<open>maxEntries\<close>
  is positive the length does not exceed it.
\<close>

theorem lru_invariant:
  "\<exists>rs c. lru_run (newLRU M d) ps = Inr (rs, c) \<and> lru_inv c \<and>
      distinct (lru_keys c) \<and> set (lru_keys c) = lru_dom c \<and>
      lru_size c = Inr (int (length (lru_keys c))) \<and>
      (0 < M \<longrightarrow> int (length (lru_keys c)) \<le> M)"
proof -
  from lru_run_seq [OF newLRU_inv(1), of M d ps] obtain c where
    c: "lru_run (newLRU M d) ps = Inr (fst (seq_run M d [] ps), c)" "lru_inv c"
       "lru_entries c = snd (seq_run M d [] ps)"
    by (auto simp: newLRU_inv)
  have "0 < M \<longrightarrow> int (length (lru_keys c)) \<le> M"
    using seq_run_bound [of M "[]" d ps] c(3) by (simp add: lru_keys_def)
  moreover have "lru_size c = Inr (int (length (lru_keys c)))"
    using lru_size_seq [OF c(2)] by (simp add: lru_keys_def)
  ultimately show ?thesis
    using c(1,2) lru_inv_keys(1,2) [OF c(2)] by blast
qed

theorem lru_invariant_witness:
  "(0::int) < 2 \<and>
   (\<exists>rs c. lru_run (newLRU 2 10) [(0, Add (1::nat) ''a''), (1, Add 2 ''b''), (2, Add 3 ''c'')] = Inr (rs, c) \<and>
      lru_inv c \<and> distinct (lru_keys c) \<and> set (lru_keys c) = lru_dom c \<and>
      int (length (lru_keys c)) \<le> 2)"
  using lru_invariant [of 2 10 "[(0, Add (1::nat) ''a''), (1, Add 2 ''b''), (2, Add 3 ''c'')]"]
  by auto

text \<open>
  Claim C5 as stated fails for a negative bound: with \<open>maxEntries = -1\<close>, which is not
  0, the entry that \<open>add\<close> pushes is evicted at once, and the size 0 that remains
  exceeds \<open>maxEntries\<close>.
\<close>

theorem lru_negative_bound_counterexample:
  "observed (lru_run (newLRU (- 1) 10) [(0, Add (1::nat) ''a''), (0, Size)]) = Inr [Done, Count 0] \<and>
   lru_maxEntries (newLRU (- 1) 10 :: (nat, string) lruCache) \<noteq> 0 \<and>
   \<not> (0 \<le> lru_maxEntries (newLRU (- 1) 10 :: (nat, string) lruCache))"
  by (simp add: observed_def lru_step_def lru_add_def lru_size_def newLRU_def
       lru_removeOldest_def lru_removeElement_def Back_def Let_def)

lemma set_keys_butlast:
  assumes "distinct (map key es)" "es \<noteq> []"
  shows "set (map key (butlast es)) = set (map key es) - {key (last es)}"
proof -
  have "set (map key (filter (\<lambda>e. key e \<noteq> key (last es)) es)) = set (map key es) - {key (last es)}"
    by auto
  then show ?thesis using filter_key_last [OF assms] by simp
qed

text \<open>
  Claim C1. In a well-formed state that respects a positive bound \<open>N\<close>, adding a key
  that the map does not hold, when the sequence already has \<open>N\<close> entries, evicts the
  back-most entry and nothing else: the new entry is at the front, the other entries
  keep their order, the key of the back-most entry leaves the map, and the size is
  \<open>N\<close>. With \<open>maxEntries = 5\<close> and no expiry (\<open>maxDuration\<close>): after adding keys 1 to 6,
  \<open>get 1\<close> is not-found and \<open>get 6\<close> finds the value; with \<open>get 1\<close> between the fifth
  and the sixth \<open>add\<close>, key 2 is evicted and key 1 is still found.
\<close>

theorem lru_add_evicts_back:
  "(lru_wf c \<and> 0 < lru_maxEntries c \<and> k \<notin> lru_dom c \<and>
      int (length (lru_entries c)) + 1 > lru_maxEntries c \<longrightarrow>
      (\<exists>c'. lru_add c now k v = Inr c' \<and> lru_inv c' \<and>
         lru_entries c' =
           \<lparr>key = k, ttl = now + lru_expiry c, val = v\<rparr> # butlast (lru_entries c) \<and>
         lru_dom c' = insert k (lru_dom c - {key (last (lru_entries c))}) \<and>
         lru_size c' = Inr (lru_maxEntries c))) \<and>
   observed (lru_run (newLRU 5 maxDuration)
     [(0, Add (1::nat) v1), (1, Add 2 v2), (2, Add 3 v3), (3, Add 4 v4), (4, Add 5 v5),
      (5, Add 6 v6), (6, Get 1), (7, Get 6)]) =
     Inr [Done, Done, Done, Done, Done, Done, Found None, Found (Some v6)] \<and>
   observed (lru_run (newLRU 5 maxDuration)
     [(0, Add (1::nat) v1), (1, Add 2 v2), (2, Add 3 v3), (3, Add 4 v4), (4, Add 5 v5),
      (5, Get 1), (6, Add 6 v6), (7, Get 2), (8, Get 1)]) =
     Inr [Done, Done, Done, Done, Done, Found (Some v1), Done, Found None, Found (Some v1)]"
proof (intro conjI impI)
  assume h: "lru_wf c \<and> 0 < lru_maxEntries c \<and> k \<notin> lru_dom c \<and>
      int (length (lru_entries c)) + 1 > lru_maxEntries c"
  then have i: "lru_inv c" and len: "int (length (lru_entries c)) = lru_maxEntries c"
    and ne: "lru_entries c \<noteq> []"
    by (auto simp: lru_wf_def)
  from h have "k \<notin> set (lru_keys c)" using lru_inv_keys(2) [OF i] by simp
  then have f: "find (\<lambda>e. key e = k) (lru_entries c) = None"
    by (auto simp: lru_keys_def find_None_iff)
  from lru_add_seq [OF i, of now k v] obtain c' where
    c': "lru_add c now k v = Inr c'" "lru_inv c'"
        "lru_entries c' = seq_add (lru_maxEntries c) (lru_expiry c) now k v (lru_entries c)"
    by blast
  have e: "lru_entries c' =
      \<lparr>key = k, ttl = now + lru_expiry c, val = v\<rparr> # butlast (lru_entries c)"
    using c'(3) f h ne by (simp add: seq_add_def Let_def)
  have d: "distinct (map key (lru_entries c))"
    using lru_inv_keys(1) [OF i] by (simp add: lru_keys_def)
  have "lru_dom c' = set (lru_keys c')" using lru_inv_keys(2) [OF c'(2)] by simp
  also have "\<dots> = insert k (set (map key (butlast (lru_entries c))))"
    by (simp add: lru_keys_def e)
  also have "\<dots> = insert k (set (lru_keys c) - {key (last (lru_entries c))})"
    using set_keys_butlast [OF d ne] by (simp add: lru_keys_def)
  finally have dm: "lru_dom c' = insert k (lru_dom c - {key (last (lru_entries c))})"
    using lru_inv_keys(2) [OF i] by simp
  have "lru_size c' = Inr (lru_maxEntries c)"
    using lru_size_seq [OF c'(2)] e len ne by simp
  then show "\<exists>c'. lru_add c now k v = Inr c' \<and> lru_inv c' \<and>
         lru_entries c' =
           \<lparr>key = k, ttl = now + lru_expiry c, val = v\<rparr> # butlast (lru_entries c) \<and>
         lru_dom c' = insert k (lru_dom c - {key (last (lru_entries c))}) \<and>
         lru_size c' = Inr (lru_maxEntries c)"
    using c'(1,2) e dm by blast
next
  show "observed (lru_run (newLRU 5 maxDuration)
     [(0, Add (1::nat) v1), (1, Add 2 v2), (2, Add 3 v3), (3, Add 4 v4), (4, Add 5 v5),
      (5, Add 6 v6), (6, Get 1), (7, Get 6)]) =
     Inr [Done, Done, Done, Done, Done, Done, Found None, Found (Some v6)]"
    by (simp add: observed_def lru_step_def lru_add_def lru_get_def newLRU_def maxDuration_def
       lru_removeOldest_def lru_removeElement_def Back_def MoveToFront_def lru_remove_def Let_def)
next
  show "observed (lru_run (newLRU 5 maxDuration)
     [(0, Add (1::nat) v1), (1, Add 2 v2), (2, Add 3 v3), (3, Add 4 v4), (4, Add 5 v5),
      (5, Get 1), (6, Add 6 v6), (7, Get 2), (8, Get 1)]) =
     Inr [Done, Done, Done, Done, Done, Found (Some v1), Done, Found None, Found (Some v1)]"
    by (simp add: observed_def lru_step_def lru_add_def lru_get_def newLRU_def maxDuration_def
       lru_removeOldest_def lru_removeElement_def Back_def MoveToFront_def lru_remove_def Let_def)
qed

theorem lru_add_evicts_back_witness:
  "lru_wf c3_state \<and> 0 < lru_maxEntries c3_state \<and> 3 \<notin> lru_dom c3_state \<and>
   int (length (lru_entries c3_state)) + 1 > lru_maxEntries c3_state \<and>
   (\<exists>c'. lru_add c3_state 20 3 ''c'' = Inr c' \<and>
      lru_entries c' = [\<lparr>key = 3, ttl = 30, val = ''c''\<rparr>, \<lparr>key = 2, ttl = 12, val = ''b''\<rparr>] \<and>
      lru_dom c' = {2, 3} \<and> lru_size c' = Inr 2)"
proof -
  have e: "lru_entries c3_state = [\<lparr>key = 2, ttl = 12, val = ''b''\<rparr>, \<lparr>key = 1, ttl = 10, val = ''a''\<rparr>]"
    by (simp add: c3_state_def lru_entries_def List.map_filter_simps)
  have i: "lru_inv c3_state"
    by (auto simp: lru_inv_def c3_state_def split: if_splits)
  have p: "lru_maxEntries c3_state = 2" "lru_expiry c3_state = 10" "lru_dom c3_state = {1, 2}"
    by (auto simp: c3_state_def lru_dom_def split: if_splits)
  have w: "lru_wf c3_state" using i e p by (simp add: lru_wf_def)
  have "\<exists>c'. lru_add c3_state 20 3 ''c'' = Inr c' \<and>
      lru_entries c' = [\<lparr>key = 3, ttl = 30, val = ''c''\<rparr>, \<lparr>key = 2, ttl = 12, val = ''b''\<rparr>] \<and>
      lru_dom c' = {2, 3} \<and> lru_size c' = Inr 2"
    using lru_add_evicts_back [of c3_state 3 20 "''c''", THEN conjunct1] w e p
    by (auto simp: insert_commute)
  then show ?thesis using w e p by simp
qed


subsection \<open>Expiry engine: the primitives on the two maps\<close>

lemma ttl_remove_entry:
  "ttl_entry (ttl_remove c k) k' =
     (case ttl_entry c k of
        None \<Rightarrow> ttl_entry c k'
      | Some e \<Rightarrow> if k' = key e then None else ttl_entry c k')"
  by (auto simp: ttl_entry_def ttl_remove_def ttl_removeElement_def split: option.splits)

lemma ttl_remove_registered:
  "ttl_registered (ttl_remove c k) t =
     (case ttl_entry c k of
        None \<Rightarrow> ttl_registered c t
      | Some e \<Rightarrow> if t = UnixNano (ttl e) then None else ttl_registered c t)"
  by (auto simp: ttl_entry_def ttl_registered_def ttl_remove_def ttl_removeElement_def
      split: option.splits)

lemma ttl_remove_params:
  "ttl_maxEntries (ttl_remove c k) = ttl_maxEntries c"
  "ttl_expiry (ttl_remove c k) = ttl_expiry c"
  "ttl_updateAgeOnGet (ttl_remove c k) = ttl_updateAgeOnGet c"
  "ttl_cache (ttl_remove c k) = None \<longleftrightarrow> ttl_cache c = None"
  "ttl_expiration (ttl_remove c k) = None \<longleftrightarrow> ttl_expiration c = None"
  by (auto simp: ttl_remove_def ttl_removeElement_def split: option.splits)

lemma ttl_sound_key: "ttl_sound c \<Longrightarrow> ttl_entry c k = Some e \<Longrightarrow> key e = k"
  by (simp add: ttl_sound_def)

lemma ttl_sound_reg:
  "ttl_sound c \<Longrightarrow> ttl_registered c t = Some k \<Longrightarrow>
     \<exists>e. ttl_entry c k = Some e \<and> UnixNano (ttl e) = t"
  by (simp add: ttl_sound_def)

lemma ttl_exact_reg:
  "ttl_exact c \<Longrightarrow> ttl_entry c k = Some e \<Longrightarrow> ttl_registered c (UnixNano (ttl e)) = Some k"
  by (simp add: ttl_exact_def)

lemma ttl_remove_sound:
  assumes "ttl_sound c"
  shows "ttl_sound (ttl_remove c k)"
proof (cases "ttl_entry c k")
  case None
  then have "ttl_remove c k = c"
    by (auto simp: ttl_entry_def ttl_remove_def split: option.splits)
  then show ?thesis using assms by simp
next
  case (Some e)
  with assms have ke: "key e = k" by (simp add: ttl_sound_def)
  have "\<forall>t k'. ttl_registered (ttl_remove c k) t = Some k' \<longrightarrow>
      (\<exists>e'. ttl_entry (ttl_remove c k) k' = Some e' \<and> UnixNano (ttl e') = t)"
  proof (intro allI impI)
    fix t k' assume h: "ttl_registered (ttl_remove c k) t = Some k'"
    then have t: "t \<noteq> UnixNano (ttl e)" "ttl_registered c t = Some k'"
      using Some by (auto simp: ttl_remove_registered split: if_splits)
    with ttl_sound_reg [OF assms] obtain e' where e': "ttl_entry c k' = Some e'" "UnixNano (ttl e') = t"
      by blast
    then have "k' \<noteq> k" using t(1) Some by auto
    then show "\<exists>e'. ttl_entry (ttl_remove c k) k' = Some e' \<and> UnixNano (ttl e') = t"
      using e' Some ke by (simp add: ttl_remove_entry)
  qed
  moreover have "\<forall>k' e'. ttl_entry (ttl_remove c k) k' = Some e' \<longrightarrow> key e' = k'"
    using ttl_sound_key [OF assms] Some by (auto simp: ttl_remove_entry split: if_splits)
  moreover have "ttl_cache c = None \<longleftrightarrow> ttl_expiration c = None"
    using assms by (simp add: ttl_sound_def)
  ultimately show ?thesis by (simp add: ttl_sound_def ttl_remove_params)
qed

lemma ttl_remove_exact:
  assumes "ttl_exact c"
  shows "ttl_exact (ttl_remove c k)"
proof (cases "ttl_entry c k")
  case None
  then have "ttl_remove c k = c"
    by (auto simp: ttl_entry_def ttl_remove_def split: option.splits)
  then show ?thesis using assms by simp
next
  case (Some e)
  from assms have s: "ttl_sound c" by (simp add: ttl_exact_def)
  with Some have ke: "key e = k" by (simp add: ttl_sound_def)
  have "\<forall>k' e'. ttl_entry (ttl_remove c k) k' = Some e' \<longrightarrow>
      ttl_registered (ttl_remove c k) (UnixNano (ttl e')) = Some k'"
  proof (intro allI impI)
    fix k' e' assume "ttl_entry (ttl_remove c k) k' = Some e'"
    then have h: "k' \<noteq> k" "ttl_entry c k' = Some e'"
      using Some ke by (auto simp: ttl_remove_entry split: if_splits)
    with assms have r: "ttl_registered c (UnixNano (ttl e')) = Some k'" by (simp add: ttl_exact_def)
    from assms Some have "ttl_registered c (UnixNano (ttl e)) = Some k" by (simp add: ttl_exact_def)
    with r h(1) have "UnixNano (ttl e') \<noteq> UnixNano (ttl e)" by auto
    then show "ttl_registered (ttl_remove c k) (UnixNano (ttl e')) = Some k'"
      using r Some by (simp add: ttl_remove_registered)
  qed
  then show ?thesis using ttl_remove_sound [OF s] by (simp add: ttl_exact_def)
qed

lemma ttl_evict_sound: "ttl_sound c \<Longrightarrow> ttl_sound (ttl_evict c t)"
  by (auto simp: ttl_evict_def split: option.splits intro: ttl_remove_sound)

lemma ttl_evict_exact: "ttl_exact c \<Longrightarrow> ttl_exact (ttl_evict c t)"
  by (auto simp: ttl_evict_def split: option.splits intro: ttl_remove_exact)

lemma ttl_evict_params:
  "ttl_maxEntries (ttl_evict c t) = ttl_maxEntries c"
  "ttl_expiry (ttl_evict c t) = ttl_expiry c"
  "ttl_updateAgeOnGet (ttl_evict c t) = ttl_updateAgeOnGet c"
  by (auto simp: ttl_evict_def ttl_remove_params split: option.splits)

lemma ttl_walk_sound: "ttl_sound c \<Longrightarrow> ttl_sound (ttl_purge_walk c clk ks)"
  by (induction ks arbitrary: c clk) (simp_all add: ttl_evict_sound)

lemma ttl_walk_exact: "ttl_exact c \<Longrightarrow> ttl_exact (ttl_purge_walk c clk ks)"
  by (induction ks arbitrary: c clk) (simp_all add: ttl_evict_exact)

lemma ttl_walk_params:
  "ttl_maxEntries (ttl_purge_walk c clk ks) = ttl_maxEntries c"
  "ttl_expiry (ttl_purge_walk c clk ks) = ttl_expiry c"
  "ttl_updateAgeOnGet (ttl_purge_walk c clk ks) = ttl_updateAgeOnGet c"
  by (induction ks arbitrary: c clk; simp add: ttl_evict_params)+

text \<open>Storing an entry for a key and registering its instant, on a sound index.\<close>

lemma ttl_sound_store:
  assumes "ttl_sound c" "key e' = k"
    and old: "case ttl_entry c k of None \<Rightarrow> told = UnixNano (ttl e') | Some ee \<Rightarrow> told = UnixNano (ttl ee)"
    and en: "\<forall>k'. ttl_entry c' k' = (if k' = k then Some e' else ttl_entry c k')"
    and rg: "\<forall>t. ttl_registered c' t =
            (if t = UnixNano (ttl e') then Some k else if t = told then None else ttl_registered c t)"
    and nn: "ttl_cache c' \<noteq> None" "ttl_expiration c' \<noteq> None"
  shows "ttl_sound c'"
    and "ttl_exact c \<Longrightarrow> ttl_registered c (UnixNano (ttl e')) = None \<or> ttl_registered c (UnixNano (ttl e')) = Some k
           \<Longrightarrow> ttl_exact c'"
proof -
  have a: "\<forall>k' e. ttl_entry c' k' = Some e \<longrightarrow> key e = k'"
    using ttl_sound_key [OF assms(1)] assms(2) en by auto
  have b: "\<forall>t k'. ttl_registered c' t = Some k' \<longrightarrow> (\<exists>e. ttl_entry c' k' = Some e \<and> UnixNano (ttl e) = t)"
  proof (intro allI impI)
    fix t k' assume h: "ttl_registered c' t = Some k'"
    show "\<exists>e. ttl_entry c' k' = Some e \<and> UnixNano (ttl e) = t"
    proof (cases "t = UnixNano (ttl e')")
      case True
      then show ?thesis using h rg en by simp
    next
      case False
      with h rg have t: "t \<noteq> told" "ttl_registered c t = Some k'" by (auto split: if_splits)
      from ttl_sound_reg [OF assms(1) t(2)] obtain e where e: "ttl_entry c k' = Some e" "UnixNano (ttl e) = t"
        by blast
      have "k' \<noteq> k" using old e t(1) by (auto split: option.splits)
      then show ?thesis using e en by simp
    qed
  qed
  show s: "ttl_sound c'" using a b nn by (auto simp: ttl_sound_def)
  assume x: "ttl_exact c" and nc: "ttl_registered c (UnixNano (ttl e')) = None \<or> ttl_registered c (UnixNano (ttl e')) = Some k"
  have "\<forall>k' e. ttl_entry c' k' = Some e \<longrightarrow> ttl_registered c' (UnixNano (ttl e)) = Some k'"
  proof (intro allI impI)
    fix k' e assume h: "ttl_entry c' k' = Some e"
    show "ttl_registered c' (UnixNano (ttl e)) = Some k'"
    proof (cases "k' = k")
      case True
      then show ?thesis using h en rg by simp
    next
      case False
      with h en have e: "ttl_entry c k' = Some e" by simp
      from ttl_exact_reg [OF x e] have r: "ttl_registered c (UnixNano (ttl e)) = Some k'" .
      with nc False have n1: "UnixNano (ttl e) \<noteq> UnixNano (ttl e')" by auto
      have n2: "UnixNano (ttl e) \<noteq> told"
      proof (cases "ttl_entry c k")
        case None then show ?thesis using old n1 by simp
      next
        case (Some ee)
        from ttl_exact_reg [OF x Some] r False old Some show ?thesis by auto
      qed
      show ?thesis using r n1 n2 rg by simp
    qed
  qed
  then show "ttl_exact c'" using s by (simp add: ttl_exact_def)
qed

lemma ttl_changeTTL_hit:
  assumes "ttl_entry c k = Some ee" "ttl_expiration c \<noteq> None"
  shows "\<exists>c'. ttl_changeTTL c now k = Inr c' \<and>
           (\<forall>k'. ttl_entry c' k' =
                    (if k' = k then Some (ee\<lparr>ttl := now + ttl_expiry c\<rparr>) else ttl_entry c k')) \<and>
           (\<forall>t. ttl_registered c' t =
                    (if t = UnixNano (now + ttl_expiry c) then Some k
                     else if t = UnixNano (ttl ee) then None else ttl_registered c t)) \<and>
           ttl_cache c' \<noteq> None \<and> ttl_expiration c' \<noteq> None \<and>
           ttl_maxEntries c' = ttl_maxEntries c \<and> ttl_expiry c' = ttl_expiry c \<and>
           ttl_updateAgeOnGet c' = ttl_updateAgeOnGet c"
  using assms
  by (auto simp: ttl_changeTTL_def ttl_entry_def ttl_registered_def split: option.splits)

subsection \<open>Expiry engine: the index under every operation\<close>

lemma ttl_add_inv:
  assumes "ttl_sound c"
  shows "\<exists>c'. ttl_add c clk k v = Inr c' \<and> ttl_sound c' \<and>
           (ttl_exact c \<longrightarrow> \<not> ttl_collides c clk (Add k v) \<longrightarrow> ttl_exact c') \<and>
           ttl_maxEntries c' = ttl_maxEntries c \<and> ttl_expiry c' = ttl_expiry c \<and>
           ttl_updateAgeOnGet c' = ttl_updateAgeOnGet c"
proof -
  define c0 where "c0 = (if ttl_cache c = None
               then c\<lparr>ttl_cache := Some fmempty, ttl_expiration := Some fmempty\<rparr> else c)"
  define tn where "tn = clk 0 + ttl_expiry c"
  have s0: "ttl_sound c0"
    and en0: "\<And>k'. ttl_entry c0 k' = ttl_entry c k'"
    and rg0: "\<And>t. ttl_registered c0 t = ttl_registered c t"
    and p0: "ttl_maxEntries c0 = ttl_maxEntries c" "ttl_expiry c0 = ttl_expiry c"
            "ttl_updateAgeOnGet c0 = ttl_updateAgeOnGet c"
    using assms
    by (auto simp: c0_def ttl_sound_def ttl_entry_def ttl_registered_def split: option.splits)
  have x0: "ttl_exact c \<Longrightarrow> ttl_exact c0"
    using s0 en0 rg0 by (simp add: ttl_exact_def)
  have "ttl_cache c0 \<noteq> None" by (simp add: c0_def)
  with s0 obtain m x where mx: "ttl_cache c0 = Some m" "ttl_expiration c0 = Some x"
    by (auto simp: ttl_sound_def)
  have nc: "\<not> ttl_collides c clk (Add k v) \<Longrightarrow>
      ttl_registered c0 (UnixNano tn) = None \<or> ttl_registered c0 (UnixNano tn) = Some k"
    by (auto simp: ttl_collides_def ttl_writes_def rg0 tn_def split: option.splits)
  show ?thesis
  proof (cases "fmlookup m k")
    case (Some ee)
    let ?mid = "c0\<lparr>ttl_cache := Some (fmupd k (ee\<lparr>val := v\<rparr>) m)\<rparr>"
    have "ttl_entry ?mid k = Some (ee\<lparr>val := v\<rparr>)" "ttl_expiration ?mid \<noteq> None"
      using mx by (simp_all add: ttl_entry_def)
    from ttl_changeTTL_hit [OF this, of "clk 0"] obtain c' where
      c': "ttl_changeTTL ?mid (clk 0) k = Inr c'"
          "\<forall>k'. ttl_entry c' k' =
                    (if k' = k then Some (ee\<lparr>val := v, ttl := tn\<rparr>) else ttl_entry ?mid k')"
          "\<forall>t. ttl_registered c' t =
                    (if t = UnixNano tn then Some k
                     else if t = UnixNano (ttl ee) then None else ttl_registered ?mid t)"
          "ttl_cache c' \<noteq> None" "ttl_expiration c' \<noteq> None"
          "ttl_maxEntries c' = ttl_maxEntries c" "ttl_expiry c' = ttl_expiry c"
          "ttl_updateAgeOnGet c' = ttl_updateAgeOnGet c"
      by (auto simp: p0 tn_def)
    have a: "ttl_add c clk k v = Inr c'"
      using mx Some c'(1) unfolding ttl_add_def c0_def [symmetric] by (simp add: Let_def)
    have e0: "ttl_entry c0 k = Some ee" using mx Some by (simp add: ttl_entry_def)
    have ke: "key (ee\<lparr>val := v, ttl := tn\<rparr>) = k" using ttl_sound_key [OF s0 e0] by simp
    have en: "\<forall>k'. ttl_entry c' k' =
                    (if k' = k then Some (ee\<lparr>val := v, ttl := tn\<rparr>) else ttl_entry c0 k')"
      using c'(2) mx by (simp add: ttl_entry_def)
    have rg: "\<forall>t. ttl_registered c' t =
        (if t = UnixNano (ttl (ee\<lparr>val := v, ttl := tn\<rparr>)) then Some k
         else if t = UnixNano (ttl ee) then None else ttl_registered c0 t)"
      using c'(3) by (simp add: ttl_registered_def)
    have old: "case ttl_entry c0 k of
                 None \<Rightarrow> UnixNano (ttl ee) = UnixNano (ttl (ee\<lparr>val := v, ttl := tn\<rparr>))
               | Some ee' \<Rightarrow> UnixNano (ttl ee) = UnixNano (ttl ee')"
      using e0 by simp
    from ttl_sound_store [OF s0 ke old en rg c'(4,5)] x0 nc
    have "ttl_sound c'" "ttl_exact c \<longrightarrow> \<not> ttl_collides c clk (Add k v) \<longrightarrow> ttl_exact c'"
      by auto
    then show ?thesis using a c'(6-8) by simp
  next
    case None
    let ?ele = "\<lparr>key = k, ttl = tn, val = v\<rparr>"
    let ?c1 = "c0\<lparr>ttl_cache := Some (fmupd k ?ele m),
                   ttl_expiration := Some (fmupd (UnixNano tn) k x)\<rparr>"
    have e0: "ttl_entry c0 k = None" using mx None by (simp add: ttl_entry_def)
    have en: "\<forall>k'. ttl_entry ?c1 k' = (if k' = k then Some ?ele else ttl_entry c0 k')"
      using mx by (simp add: ttl_entry_def)
    have rg: "\<forall>t. ttl_registered ?c1 t =
        (if t = UnixNano (ttl ?ele) then Some k
         else if t = UnixNano (ttl ?ele) then None else ttl_registered c0 t)"
      using mx by (simp add: ttl_registered_def)
    have old: "case ttl_entry c0 k of None \<Rightarrow> UnixNano (ttl ?ele) = UnixNano (ttl ?ele)
               | Some ee' \<Rightarrow> UnixNano (ttl ?ele) = UnixNano (ttl ee')"
      using e0 by simp
    have nn: "ttl_cache ?c1 \<noteq> None" "ttl_expiration ?c1 \<noteq> None" by simp_all
    from ttl_sound_store [OF s0 _ old en rg nn] x0 nc
    have s1: "ttl_sound ?c1" and x1: "ttl_exact c \<longrightarrow> \<not> ttl_collides c clk (Add k v) \<longrightarrow> ttl_exact ?c1"
      by auto
    have a: "ttl_add c clk k v =
        Inr (if ttl_maxEntries c \<noteq> 0 \<and> ttl_len ?c1 > ttl_maxEntries c
             then ttl_purgeToCapacity ?c1 (later clk) else ?c1)"
      using mx None unfolding ttl_add_def c0_def [symmetric] by (simp add: Let_def tn_def p0)
    show ?thesis
    proof (cases "ttl_maxEntries c \<noteq> 0 \<and> ttl_len ?c1 > ttl_maxEntries c")
      case True
      then have "ttl_add c clk k v = Inr (ttl_purge_walk ?c1 (later clk) (expKeys ?c1))"
        using a by (simp add: ttl_purgeToCapacity_def)
      then show ?thesis
        using ttl_walk_sound [OF s1] ttl_walk_exact [of ?c1] x1 p0
        by (auto simp: ttl_walk_params)
    next
      case False
      then have "ttl_add c clk k v = Inr ?c1" using a by auto
      then show ?thesis using s1 x1 p0 by simp
    qed
  qed
qed

lemma ttl_get_inv:
  assumes "ttl_sound c"
  shows "\<exists>r c'. ttl_get c clk k = Inr (r, c') \<and> ttl_sound c' \<and>
           (ttl_exact c \<longrightarrow> \<not> ttl_collides c clk (Get k) \<longrightarrow> ttl_exact c') \<and>
           ttl_maxEntries c' = ttl_maxEntries c \<and> ttl_expiry c' = ttl_expiry c \<and>
           ttl_updateAgeOnGet c' = ttl_updateAgeOnGet c"
proof (cases "ttl_entry c k")
  case None
  then have "ttl_get c clk k = Inr (None, c)"
    by (auto simp: ttl_get_def ttl_entry_def split: option.splits)
  then show ?thesis using assms by simp
next
  case (Some ee)
  then obtain m where m: "ttl_cache c = Some m" "fmlookup m k = Some ee"
    by (auto simp: ttl_entry_def split: option.splits)
  show ?thesis
  proof (cases "clk 0 > ttl ee")
    case True
    then have "ttl_get c clk k = Inr (None, ttl_remove c k)"
      using m by (simp add: ttl_get_def)
    then show ?thesis
      using ttl_remove_sound [OF assms, of k] ttl_remove_exact [of c k]
      by (simp add: ttl_remove_params)
  next
    case False
    show ?thesis
    proof (cases "ttl_updateAgeOnGet c")
      case u: False
      then have "ttl_get c clk k = Inr (Some (val ee), c)"
        using m False by (simp add: ttl_get_def)
      then show ?thesis using assms by simp
    next
      case u: True
      have "ttl_expiration c \<noteq> None" using assms m by (simp add: ttl_sound_def)
      from ttl_changeTTL_hit [OF Some this, of "clk 1"] obtain c' where
        c': "ttl_changeTTL c (clk 1) k = Inr c'"
          "\<forall>k'. ttl_entry c' k' =
                    (if k' = k then Some (ee\<lparr>ttl := clk 1 + ttl_expiry c\<rparr>) else ttl_entry c k')"
          "\<forall>t. ttl_registered c' t =
                    (if t = UnixNano (ttl (ee\<lparr>ttl := clk 1 + ttl_expiry c\<rparr>)) then Some k
                     else if t = UnixNano (ttl ee) then None else ttl_registered c t)"
          "ttl_cache c' \<noteq> None" "ttl_expiration c' \<noteq> None"
          "ttl_maxEntries c' = ttl_maxEntries c" "ttl_expiry c' = ttl_expiry c"
          "ttl_updateAgeOnGet c' = ttl_updateAgeOnGet c"
        by auto
      have g: "ttl_get c clk k = Inr (Some (val ee), c')"
        using m False u c'(1) by (simp add: ttl_get_def)
      have ke: "key (ee\<lparr>ttl := clk 1 + ttl_expiry c\<rparr>) = k" using ttl_sound_key [OF assms Some] by simp
      have old: "case ttl_entry c k of
                 None \<Rightarrow> UnixNano (ttl ee) = UnixNano (ttl (ee\<lparr>ttl := clk 1 + ttl_expiry c\<rparr>))
               | Some ee' \<Rightarrow> UnixNano (ttl ee) = UnixNano (ttl ee')"
        using Some by simp
      have nc: "\<not> ttl_collides c clk (Get k) \<Longrightarrow>
          ttl_registered c (UnixNano (ttl (ee\<lparr>ttl := clk 1 + ttl_expiry c\<rparr>))) = None \<or>
          ttl_registered c (UnixNano (ttl (ee\<lparr>ttl := clk 1 + ttl_expiry c\<rparr>))) = Some k"
        using Some False u by (auto simp: ttl_collides_def ttl_writes_def split: option.splits)
      from ttl_sound_store [OF assms ke old c'(2,3,4,5)] nc
      have "ttl_sound c'" "ttl_exact c \<longrightarrow> \<not> ttl_collides c clk (Get k) \<longrightarrow> ttl_exact c'"
        by auto
      then show ?thesis using g c'(6-8) by simp
    qed
  qed
qed

lemma ttl_clear_inv: "ttl_exact (ttl_clear c)" "ttl_sound (ttl_clear c)"
  by (simp_all add: ttl_exact_def ttl_sound_def ttl_clear_def ttl_entry_def ttl_registered_def)

lemma ttl_step_inv:
  assumes "ttl_sound c"
  shows "\<exists>r c'. ttl_step c clk p = Inr (r, c') \<and> ttl_sound c' \<and>
           (ttl_exact c \<longrightarrow> \<not> ttl_collides c clk p \<longrightarrow> ttl_exact c') \<and>
           ttl_maxEntries c' = ttl_maxEntries c \<and> ttl_expiry c' = ttl_expiry c \<and>
           ttl_updateAgeOnGet c' = ttl_updateAgeOnGet c"
proof (cases p)
  case (Add k v)
  from ttl_add_inv [OF assms, of clk k v] show ?thesis by (auto simp: Add ttl_step_def)
next
  case (Get k)
  from ttl_get_inv [OF assms, of clk k] show ?thesis by (auto simp: Get ttl_step_def)
next
  case (Remove k)
  show ?thesis
    using ttl_remove_sound [OF assms, of k] ttl_remove_exact [of c k]
    by (simp add: Remove ttl_step_def ttl_remove_params)
next
  case Size
  then show ?thesis using assms by (simp add: ttl_step_def)
next
  case Clear
  then show ?thesis using ttl_clear_inv [of c] by (simp add: ttl_step_def ttl_clear_def)
qed



lemma newTTLCache_sound: "ttl_sound (newTTLCache M d u)"
  by (simp add: ttl_sound_def newTTLCache_def ttl_entry_def ttl_registered_def)




subsection \<open>Expiry engine: the capacity purge\<close>

lemma ttl_remove_len:
  assumes "ttl_sound c" "ttl_entry c k = Some e"
  shows "ttl_len (ttl_remove c k) = ttl_len c - 1"
proof -
  from assms(2) obtain m where m: "ttl_cache c = Some m" "fmlookup m k = Some e"
    by (auto simp: ttl_entry_def split: option.splits)
  have ke: "key e = k" using ttl_sound_key [OF assms] .
  have "k |\<in>| fmdom m" using m(2) by (rule fmdomI)
  then have "Suc (fcard (fmdom m |-| {|k|})) = fcard (fmdom m)" by (rule fcard_Suc_fminus1)
  then have "int (fcard (fmdom m |-| {|k|})) = int (fcard (fmdom m)) - 1" by linarith
  then show ?thesis
    using m ke by (simp add: ttl_len_def ttl_remove_def ttl_removeElement_def)
qed

lemma ttl_evict_registered: "ttl_registered c t = Some K \<Longrightarrow> ttl_evict c t = ttl_remove c K"
  by (auto simp: ttl_registered_def ttl_evict_def split: option.splits)

lemma purge_reading_0: "purge_reading c clk 0 = clk 0"
  by (simp add: purge_reading_def)

lemma purge_reading_Suc:
  assumes "ttl_len c1 = ttl_len c - 1" "ttl_maxEntries c1 = ttl_maxEntries c"
  shows "purge_reading c1 (if ttl_len c \<le> ttl_maxEntries c then later clk else clk) j =
         purge_reading c clk (Suc j)"
proof (cases "ttl_len c \<le> ttl_maxEntries c")
  case True
  then show ?thesis using assms by (simp add: purge_reading_def later_def)
next
  case False
  then have "nat (ttl_len c - ttl_maxEntries c) = Suc (nat (ttl_len c1 - ttl_maxEntries c1))"
    using assms by simp
  then show ?thesis using False by (simp add: purge_reading_def)
qed

lemma ttl_walk_spec:
  assumes "ttl_sound c" "distinct ks" "\<forall>t \<in> set ks. ttl_registered c t \<noteq> None"
  shows "\<exists>n \<le> length ks.
     (\<forall>t. ttl_registered (ttl_purge_walk c clk ks) t =
            (if t \<in> set (take n ks) then None else ttl_registered c t)) \<and>
     (\<forall>k. ttl_entry (ttl_purge_walk c clk ks) k =
            (if \<exists>t \<in> set (take n ks). ttl_registered c t = Some k then None else ttl_entry c k)) \<and>
     ttl_len (ttl_purge_walk c clk ks) = ttl_len c - int n \<and>
     (\<forall>i<n. \<not> (ttl_len c - int i \<le> ttl_maxEntries c \<and>
               ks ! i > UnixNano (purge_reading c clk i))) \<and>
     (n < length ks \<longrightarrow> ttl_len c - int n \<le> ttl_maxEntries c \<and>
        ks ! n > UnixNano (purge_reading c clk n))"
  using assms
proof (induction ks arbitrary: c clk)
  case Nil
  then show ?case by simp
next
  case (Cons k ks)
  show ?case
  proof (cases "ttl_len c \<le> ttl_maxEntries c \<and> k > UnixNano (clk 0)")
    case True
    then show ?thesis by (intro exI [of _ 0]) (simp add: purge_reading_0)
  next
    case False
    from Cons.prems(3) obtain K where K: "ttl_registered c k = Some K" by auto
    from ttl_sound_reg [OF Cons.prems(1) K] obtain e where
      e: "ttl_entry c K = Some e" "UnixNano (ttl e) = k"
      by blast
    let ?c1 = "ttl_remove c K"
    let ?clk1 = "if ttl_len c \<le> ttl_maxEntries c then later clk else clk"
    have w: "ttl_purge_walk c clk (k # ks) = ttl_purge_walk ?c1 ?clk1 ks"
      using False by (auto simp: ttl_evict_registered [OF K])
    have s1: "ttl_sound ?c1" using Cons.prems(1) by (rule ttl_remove_sound)
    have r1: "\<And>t. ttl_registered ?c1 t = (if t = k then None else ttl_registered c t)"
      using e by (simp add: ttl_remove_registered)
    have e1: "\<And>k'. ttl_entry ?c1 k' = (if k' = K then None else ttl_entry c k')"
      using e ttl_sound_key [OF Cons.prems(1) e(1)] by (simp add: ttl_remove_entry)
    have l1: "ttl_len ?c1 = ttl_len c - 1" using Cons.prems(1) e(1) by (rule ttl_remove_len)
    have m1: "ttl_maxEntries ?c1 = ttl_maxEntries c" by (simp add: ttl_remove_params)
    note rd = purge_reading_Suc [OF l1 m1, of clk]
    have d: "distinct ks" "k \<notin> set ks" using Cons.prems(2) by simp_all
    have g1: "\<forall>t \<in> set ks. ttl_registered ?c1 t \<noteq> None"
      using Cons.prems(3) d(2) by (auto simp: r1)
    from Cons.IH [OF s1 d(1) g1, of ?clk1] obtain n where
      n: "n \<le> length ks"
         "\<forall>t. ttl_registered (ttl_purge_walk ?c1 ?clk1 ks) t =
            (if t \<in> set (take n ks) then None else ttl_registered ?c1 t)"
         "\<forall>k'. ttl_entry (ttl_purge_walk ?c1 ?clk1 ks) k' =
            (if \<exists>t \<in> set (take n ks). ttl_registered ?c1 t = Some k' then None else ttl_entry ?c1 k')"
         "ttl_len (ttl_purge_walk ?c1 ?clk1 ks) = ttl_len ?c1 - int n"
         "\<forall>i<n. \<not> (ttl_len ?c1 - int i \<le> ttl_maxEntries ?c1 \<and>
               ks ! i > UnixNano (purge_reading ?c1 ?clk1 i))"
         "n < length ks \<longrightarrow> ttl_len ?c1 - int n \<le> ttl_maxEntries ?c1 \<and>
               ks ! n > UnixNano (purge_reading ?c1 ?clk1 n)"
      by blast
    have kt: "\<And>t. t \<in> set (take n ks) \<Longrightarrow> t \<noteq> k"
      using d(2) by (auto dest: in_set_takeD)
    have a: "\<forall>t. ttl_registered (ttl_purge_walk c clk (k # ks)) t =
            (if t \<in> set (take (Suc n) (k # ks)) then None else ttl_registered c t)"
      using n(2) unfolding w by (simp add: r1)
    have b: "\<forall>k'. ttl_entry (ttl_purge_walk c clk (k # ks)) k' =
            (if \<exists>t \<in> set (take (Suc n) (k # ks)). ttl_registered c t = Some k' then None
             else ttl_entry c k')"
    proof
      fix k'
      have "(\<exists>t \<in> set (take (Suc n) (k # ks)). ttl_registered c t = Some k') \<longleftrightarrow>
            k' = K \<or> (\<exists>t \<in> set (take n ks). ttl_registered ?c1 t = Some k')"
        using K kt by (auto simp: r1)
      then show "ttl_entry (ttl_purge_walk c clk (k # ks)) k' =
            (if \<exists>t \<in> set (take (Suc n) (k # ks)). ttl_registered c t = Some k' then None
             else ttl_entry c k')"
        using n(3) unfolding w by (simp add: e1)
    qed
    have c: "ttl_len (ttl_purge_walk c clk (k # ks)) = ttl_len c - int (Suc n)"
      using n(4) l1 unfolding w by simp
    have f: "\<forall>i<Suc n. \<not> (ttl_len c - int i \<le> ttl_maxEntries c \<and>
               (k # ks) ! i > UnixNano (purge_reading c clk i))"
    proof (intro allI impI)
      fix i assume i: "i < Suc n"
      show "\<not> (ttl_len c - int i \<le> ttl_maxEntries c \<and>
               (k # ks) ! i > UnixNano (purge_reading c clk i))"
      proof (cases i)
        case 0 then show ?thesis using False by (simp add: purge_reading_0)
      next
        case (Suc j)
        with i n(5) have "\<not> (ttl_len ?c1 - int j \<le> ttl_maxEntries ?c1 \<and>
            ks ! j > UnixNano (purge_reading ?c1 ?clk1 j))" by simp
        then show ?thesis using Suc l1 m1 unfolding rd by auto
      qed
    qed
    have g: "Suc n < length (k # ks) \<longrightarrow>
        ttl_len c - int (Suc n) \<le> ttl_maxEntries c \<and>
        (k # ks) ! Suc n > UnixNano (purge_reading c clk (Suc n))"
      using n(6) l1 m1 unfolding rd by auto
    show ?thesis
      using n(1) a b c f g by (intro exI [of _ "Suc n"]) (simp del: take_Suc_Cons ttl_purge_walk.simps)
  qed
qed

lemma ttl_len_card: "ttl_len c = int (card {k. ttl_entry c k \<noteq> None})"
proof (cases "ttl_cache c")
  case None
  then show ?thesis by (simp add: ttl_len_def ttl_entry_def)
next
  case (Some m)
  have "{k. fmlookup m k \<noteq> None} = fset (fmdom m)"
    by (auto simp: fmlookup_dom_iff)
  then show ?thesis using Some by (simp add: ttl_len_def ttl_entry_def fcard.rep_eq)
qed

lemma ttl_entries_finite: "finite {k. ttl_entry c k \<noteq> None}"
proof (cases "ttl_cache c")
  case None
  then show ?thesis by (simp add: ttl_entry_def)
next
  case (Some m)
  have "{k. fmlookup m k \<noteq> None} = fset (fmdom m)"
    by (auto simp: fmlookup_dom_iff)
  then show ?thesis using Some by (simp add: ttl_entry_def)
qed

lemma expKeys_facts:
  "sorted (expKeys c)" "distinct (expKeys c)" "set (expKeys c) = {t. ttl_registered c t \<noteq> None}"
proof -
  show "sorted (expKeys c)"
    by (simp add: expKeys_def sorted_list_of_fset.rep_eq split: option.splits)
  show "distinct (expKeys c)"
    by (simp add: expKeys_def sorted_list_of_fset.rep_eq split: option.splits)
  show "set (expKeys c) = {t. ttl_registered c t \<noteq> None}"
  proof (cases "ttl_expiration c")
    case None
    then show ?thesis by (simp add: expKeys_def ttl_registered_def)
  next
    case (Some x)
    have "fset (fmdom x) = {t. fmlookup x t \<noteq> None}" by (auto simp: fmlookup_dom_iff)
    then show ?thesis using Some by (simp add: expKeys_def ttl_registered_def)
  qed
qed

lemma ttl_add_new:
  assumes "ttl_sound c" "ttl_entry c k = None"
  shows "\<exists>c1. ttl_sound c1 \<and>
           (\<forall>k'. ttl_entry c1 k' =
              (if k' = k then Some \<lparr>key = k, ttl = clk 0 + ttl_expiry c, val = v\<rparr>
               else ttl_entry c k')) \<and>
           (\<forall>t. ttl_registered c1 t =
              (if t = UnixNano (clk 0 + ttl_expiry c) then Some k else ttl_registered c t)) \<and>
           ttl_len c1 = ttl_len c + 1 \<and> ttl_maxEntries c1 = ttl_maxEntries c \<and>
           ttl_expiry c1 = ttl_expiry c \<and> ttl_updateAgeOnGet c1 = ttl_updateAgeOnGet c \<and>
           ttl_add c clk k v =
             Inr (if ttl_maxEntries c \<noteq> 0 \<and> ttl_len c1 > ttl_maxEntries c
                  then ttl_purgeToCapacity c1 (later clk) else c1)"
proof -
  define c0 where "c0 = (if ttl_cache c = None
               then c\<lparr>ttl_cache := Some fmempty, ttl_expiration := Some fmempty\<rparr> else c)"
  define tn where "tn = clk 0 + ttl_expiry c"
  have s0: "ttl_sound c0"
    and en0: "\<And>k'. ttl_entry c0 k' = ttl_entry c k'"
    and rg0: "\<And>t. ttl_registered c0 t = ttl_registered c t"
    and p0: "ttl_maxEntries c0 = ttl_maxEntries c" "ttl_expiry c0 = ttl_expiry c"
            "ttl_updateAgeOnGet c0 = ttl_updateAgeOnGet c"
    using assms(1)
    by (auto simp: c0_def ttl_sound_def ttl_entry_def ttl_registered_def split: option.splits)
  have "ttl_cache c0 \<noteq> None" by (simp add: c0_def)
  with s0 obtain m x where mx: "ttl_cache c0 = Some m" "ttl_expiration c0 = Some x"
    by (auto simp: ttl_sound_def)
  have None: "fmlookup m k = None" using assms(2) en0 [of k] mx by (simp add: ttl_entry_def)
  let ?ele = "\<lparr>key = k, ttl = tn, val = v\<rparr>"
  let ?c1 = "c0\<lparr>ttl_cache := Some (fmupd k ?ele m),
                 ttl_expiration := Some (fmupd (UnixNano tn) k x)\<rparr>"
  have e0: "ttl_entry c0 k = None" using assms(2) en0 by simp
  have en: "\<forall>k'. ttl_entry ?c1 k' = (if k' = k then Some ?ele else ttl_entry c0 k')"
    using mx by (simp add: ttl_entry_def)
  have rg: "\<forall>t. ttl_registered ?c1 t =
        (if t = UnixNano (ttl ?ele) then Some k
         else if t = UnixNano (ttl ?ele) then None else ttl_registered c0 t)"
    using mx by (simp add: ttl_registered_def)
  have old: "case ttl_entry c0 k of None \<Rightarrow> UnixNano (ttl ?ele) = UnixNano (ttl ?ele)
             | Some ee' \<Rightarrow> UnixNano (ttl ?ele) = UnixNano (ttl ee')"
    using e0 by simp
  have nn: "ttl_cache ?c1 \<noteq> None" "ttl_expiration ?c1 \<noteq> None" by simp_all
  from ttl_sound_store(1) [OF s0 _ old en rg nn] have s1: "ttl_sound ?c1" by simp
  have "{k'. ttl_entry ?c1 k' \<noteq> None} = insert k {k'. ttl_entry c k' \<noteq> None}"
    using en en0 by auto
  moreover have "k \<notin> {k'. ttl_entry c k' \<noteq> None}" using assms(2) by simp
  ultimately have l1: "ttl_len ?c1 = ttl_len c + 1"
    using ttl_entries_finite [of c] by (simp add: ttl_len_card)
  have a: "ttl_add c clk k v =
        Inr (if ttl_maxEntries c \<noteq> 0 \<and> ttl_len ?c1 > ttl_maxEntries c
             then ttl_purgeToCapacity ?c1 (later clk) else ?c1)"
    using mx None unfolding ttl_add_def c0_def [symmetric] by (simp add: Let_def tn_def p0)
  have en': "\<forall>k'. ttl_entry ?c1 k' =
      (if k' = k then Some \<lparr>key = k, ttl = clk 0 + ttl_expiry c, val = v\<rparr> else ttl_entry c k')"
    using en en0 by (simp add: tn_def)
  have rg': "\<forall>t. ttl_registered ?c1 t =
      (if t = UnixNano (clk 0 + ttl_expiry c) then Some k else ttl_registered c t)"
    using rg rg0 by (simp add: tn_def)
  show ?thesis
    using s1 en' rg' l1 a p0 by (intro exI [of _ ?c1]) simp
qed

lemma ttl_add_existing:
  assumes "ttl_sound c" "ttl_entry c k = Some ee"
  shows "\<exists>c'. ttl_add c clk k v = Inr c' \<and>
           (\<forall>k'. ttl_entry c' k' =
              (if k' = k then Some (ee\<lparr>val := v, ttl := clk 0 + ttl_expiry c\<rparr>)
               else ttl_entry c k')) \<and>
           (\<forall>t. ttl_registered c' t =
              (if t = UnixNano (clk 0 + ttl_expiry c) then Some k
               else if t = UnixNano (ttl ee) then None else ttl_registered c t)) \<and>
           ttl_len c' = ttl_len c"
proof -
  from assms(2) obtain m where m: "ttl_cache c = Some m" "fmlookup m k = Some ee"
    by (auto simp: ttl_entry_def split: option.splits)
  let ?mid = "c\<lparr>ttl_cache := Some (fmupd k (ee\<lparr>val := v\<rparr>) m)\<rparr>"
  have x: "ttl_expiration c \<noteq> None" using assms(1) m by (simp add: ttl_sound_def)
  have "ttl_entry ?mid k = Some (ee\<lparr>val := v\<rparr>)" "ttl_expiration ?mid \<noteq> None"
    using x by (simp_all add: ttl_entry_def)
  from ttl_changeTTL_hit [OF this, of "clk 0"] obtain c' where
    c': "ttl_changeTTL ?mid (clk 0) k = Inr c'"
        "\<forall>k'. ttl_entry c' k' =
           (if k' = k then Some (ee\<lparr>val := v, ttl := clk 0 + ttl_expiry c\<rparr>) else ttl_entry ?mid k')"
        "\<forall>t. ttl_registered c' t =
           (if t = UnixNano (clk 0 + ttl_expiry c) then Some k
            else if t = UnixNano (ttl ee) then None else ttl_registered ?mid t)"
    by auto
  have a: "ttl_add c clk k v = Inr c'"
    using m c'(1) by (simp add: ttl_add_def Let_def)
  have en: "\<forall>k'. ttl_entry c' k' =
      (if k' = k then Some (ee\<lparr>val := v, ttl := clk 0 + ttl_expiry c\<rparr>) else ttl_entry c k')"
    using c'(2) m by (simp add: ttl_entry_def)
  have rg: "\<forall>t. ttl_registered c' t =
      (if t = UnixNano (clk 0 + ttl_expiry c) then Some k
       else if t = UnixNano (ttl ee) then None else ttl_registered c t)"
    using c'(3) by (simp add: ttl_registered_def)
  have "{k'. ttl_entry c' k' \<noteq> None} = {k'. ttl_entry c k' \<noteq> None}"
    using en assms(2) by auto
  then have "ttl_len c' = ttl_len c" by (simp add: ttl_len_card)
  then show ?thesis using a en rg by blast
qed

lemma ttl_purge_walked:
  assumes "ttl_sound c"
  shows "(\<exists>n \<le> length (expKeys c).
     (\<forall>i<n. \<not> (ttl_len c - int i \<le> ttl_maxEntries c \<and>
               expKeys c ! i > UnixNano (purge_reading c clk i))) \<and>
     (n < length (expKeys c) \<longrightarrow>
        ttl_len c - int n \<le> ttl_maxEntries c \<and>
        expKeys c ! n > UnixNano (purge_reading c clk n)) \<and>
     (\<forall>t. ttl_registered (ttl_purgeToCapacity c clk) t =
            (if t \<in> set (take n (expKeys c)) then None else ttl_registered c t)) \<and>
     (\<forall>k. ttl_entry (ttl_purgeToCapacity c clk) k =
            (if \<exists>t \<in> set (take n (expKeys c)). ttl_registered c t = Some k then None
             else ttl_entry c k)) \<and>
     ttl_len (ttl_purgeToCapacity c clk) = ttl_len c - int n) \<and>
   (\<forall>t k. ttl_registered c t = Some k \<and> (\<forall>j < length (expKeys c). t \<le> UnixNano (clk j)) \<longrightarrow>
      ttl_entry (ttl_purgeToCapacity c clk) k = None) \<and>
   (ttl_len (ttl_purgeToCapacity c clk) \<le> ttl_maxEntries c \<or>
      (\<forall>t. ttl_registered (ttl_purgeToCapacity c clk) t = None))"
proof -
  let ?ks = "expKeys c"
  let ?c' = "ttl_purgeToCapacity c clk"
  have reg: "\<forall>t \<in> set ?ks. ttl_registered c t \<noteq> None"
    by (simp add: expKeys_facts(3))
  from ttl_walk_spec [OF assms expKeys_facts(2) reg, of clk] obtain n where
    n: "n \<le> length ?ks"
       "\<forall>t. ttl_registered ?c' t = (if t \<in> set (take n ?ks) then None else ttl_registered c t)"
       "\<forall>k. ttl_entry ?c' k =
          (if \<exists>t \<in> set (take n ?ks). ttl_registered c t = Some k then None else ttl_entry c k)"
       "ttl_len ?c' = ttl_len c - int n"
       "\<forall>i<n. \<not> (ttl_len c - int i \<le> ttl_maxEntries c \<and>
               ?ks ! i > UnixNano (purge_reading c clk i))"
       "n < length ?ks \<longrightarrow> ttl_len c - int n \<le> ttl_maxEntries c \<and>
               ?ks ! n > UnixNano (purge_reading c clk n)"
    unfolding ttl_purgeToCapacity_def by blast
  have expired: "\<forall>t k. ttl_registered c t = Some k \<and> (\<forall>j < length ?ks. t \<le> UnixNano (clk j)) \<longrightarrow>
      ttl_entry ?c' k = None"
  proof (intro allI impI)
    fix t k assume h: "ttl_registered c t = Some k \<and> (\<forall>j < length ?ks. t \<le> UnixNano (clk j))"
    then have "t \<in> set ?ks" by (simp add: expKeys_facts(3))
    then obtain j where j: "j < length ?ks" "?ks ! j = t" by (auto simp: in_set_conv_nth)
    have "j < n"
    proof (rule ccontr)
      assume "\<not> j < n"
      then have nj: "n \<le> j" by simp
      with j(1) have nl: "n < length ?ks" by simp
      with n(6) have "?ks ! n > UnixNano (purge_reading c clk n)" by simp
      moreover have "?ks ! n \<le> ?ks ! j"
        using expKeys_facts(1) [of c] nj j(1) by (simp add: sorted_nth_mono)
      moreover have "n - nat (ttl_len c - ttl_maxEntries c) < length ?ks" using nl by simp
      with h have "t \<le> UnixNano (purge_reading c clk n)" by (simp add: purge_reading_def)
      ultimately show False using j(2) by simp
    qed
    then have "t \<in> set (take n ?ks)"
      using j by (auto simp: in_set_conv_nth intro!: exI [of _ j])
    with h n(3) show "ttl_entry ?c' k = None" by auto
  qed
  have fin: "ttl_len ?c' \<le> ttl_maxEntries c \<or> (\<forall>t. ttl_registered ?c' t = None)"
  proof (cases "n < length ?ks")
    case True
    then show ?thesis using n(4,6) by simp
  next
    case False
    with n(1) have "take n ?ks = ?ks" by simp
    then have "\<forall>t. ttl_registered ?c' t = None"
      using n(2) by (auto simp: expKeys_facts(3))
    then show ?thesis by simp
  qed
  have "\<exists>n \<le> length ?ks.
     (\<forall>i<n. \<not> (ttl_len c - int i \<le> ttl_maxEntries c \<and>
               ?ks ! i > UnixNano (purge_reading c clk i))) \<and>
     (n < length ?ks \<longrightarrow> ttl_len c - int n \<le> ttl_maxEntries c \<and>
               ?ks ! n > UnixNano (purge_reading c clk n)) \<and>
     (\<forall>t. ttl_registered ?c' t = (if t \<in> set (take n ?ks) then None else ttl_registered c t)) \<and>
     (\<forall>k. ttl_entry ?c' k =
            (if \<exists>t \<in> set (take n ?ks). ttl_registered c t = Some k then None
             else ttl_entry c k)) \<and>
     ttl_len ?c' = ttl_len c - int n"
    using n by blast
  then show ?thesis using expired fin by blast
qed













text \<open>
  Two runs that show the clock and the index at work. The purge reads the clock after
  \<open>add\<close> has: with the default window of 10 nanoseconds and a purge that runs 1000
  nanoseconds after the \<open>ttl\<close> was taken, the entry just stored has expired and is
  evicted with the older one, and the cache is empty. And the index holds \<open>int64\<close>
  values: with an expiry of \<open>maxDuration\<close> the instant of an entry added at 1 wraps to
  \<open>-2^63\<close>, the purge takes every entry for expired, and the cache is empty again.
\<close>

lemma ttl_purge_reads_clock_again:
  "observed (ttl_run (newTTLCache 1 10 False)
     [(\<lambda>i. 0, Add (1::nat) ''a''), (\<lambda>i. if i = 0 then 5 else 1005, Add 2 ''b''),
      (\<lambda>i. 2000, Size)]) = Inr [Done, Done, Count 0]"
  by (simp add: observed_def ttl_step_def ttl_add_def newTTLCache_def Let_def ttl_len_def
      ttl_size_def fcard.rep_eq ttl_purgeToCapacity_def expKeys_def sorted_list_of_fset.rep_eq
      UnixNano_def later_def ttl_evict_def ttl_remove_def ttl_removeElement_def)

lemma ttl_purge_wrapped_instant:
  "UnixNano (1 + maxDuration) = - (2 ^ 63) \<and>
   observed (ttl_run (newTTLCache 1 maxDuration False)
     [(\<lambda>i. 1, Add (1::nat) ''a''), (\<lambda>i. 2, Add 2 ''b''), (\<lambda>i. 3, Size)]) =
   Inr [Done, Done, Count 0]"
  by (simp add: observed_def ttl_step_def ttl_add_def newTTLCache_def Let_def ttl_len_def
      ttl_size_def fcard.rep_eq ttl_purgeToCapacity_def expKeys_def sorted_list_of_fset.rep_eq
      UnixNano_def later_def ttl_evict_def ttl_remove_def ttl_removeElement_def maxDuration_def)

subsection \<open>Round trip\<close>

lemma seq_add_find:
  assumes "k \<in> set (map key (seq_add M d now k v es))"
  shows "\<exists>e. find (\<lambda>e. key e = k) (seq_add M d now k v es) = Some e \<and> val e = v \<and>
           ttl e = now + d"
proof (cases "find (\<lambda>e. key e = k) es")
  case (Some e0)
  then have "key e0 = k" by (auto simp: find_Some_iff)
  then show ?thesis using Some by (simp add: seq_add_def)
next
  case None
  show ?thesis
  proof (cases "es = []")
    case True
    then show ?thesis using assms None by (auto simp: seq_add_def Let_def split: if_splits)
  next
    case False
    then show ?thesis using None by (simp add: seq_add_def Let_def)
  qed
qed

lemma ttl_get_hit:
  assumes "ttl_sound c" "ttl_entry c k = Some e" "\<not> clk 0 > ttl e"
  shows "\<exists>c'. ttl_get c clk k = Inr (Some (val e), c')"
proof -
  from assms(2) obtain m where m: "ttl_cache c = Some m" "fmlookup m k = Some e"
    by (auto simp: ttl_entry_def split: option.splits)
  have "ttl_expiration c \<noteq> None" using assms(1) m by (simp add: ttl_sound_def)
  from ttl_changeTTL_hit [OF assms(2) this, of "clk 1"] obtain c' where
    "ttl_changeTTL c (clk 1) k = Inr c'" by blast
  then show ?thesis using m assms(3) by (simp add: ttl_get_def)
qed

text \<open>
  Claim C6. In either engine, in a well-formed state: when \<open>add k v\<close> at \<open>t1\<close> leaves
  the key in the cache (the eviction that the insertion itself may trigger did not take
  it), a \<open>get k\<close> that follows at a time \<open>t2\<close> not past \<open>t1 + expiry\<close> returns
  \<open>(v, true)\<close>. \<open>add\<close> does not fault. For the expiry engine \<open>t1\<close> and \<open>t2\<close> are
  the first readings \<open>clk1 0\<close> and \<open>clk2 0\<close> of the clock in the two operations, whatever
  it reads later.
\<close>

theorem add_get_roundtrip:
  "(lru_inv c \<longrightarrow>
      (\<exists>c'. lru_add c t1 k v = Inr c' \<and>
         (k \<in> lru_dom c' \<and> t2 \<le> t1 + lru_expiry c \<longrightarrow>
            (\<exists>c''. lru_get c' t2 k = Inr (Some v, c''))))) \<and>
   (ttl_sound tc \<longrightarrow>
      (\<exists>tc'. ttl_add tc clk1 k v = Inr tc' \<and>
         (ttl_entry tc' k \<noteq> None \<and> clk2 0 \<le> clk1 0 + ttl_expiry tc \<longrightarrow>
            (\<exists>tc''. ttl_get tc' clk2 k = Inr (Some v, tc'')))))"
proof (intro conjI impI)
  assume i: "lru_inv c"
  from lru_add_seq [OF i, of t1 k v] obtain c' where
    c': "lru_add c t1 k v = Inr c'" "lru_inv c'"
        "lru_entries c' = seq_add (lru_maxEntries c) (lru_expiry c) t1 k v (lru_entries c)"
    by blast
  have "\<exists>c''. lru_get c' t2 k = Inr (Some v, c'')"
    if h: "k \<in> lru_dom c' \<and> t2 \<le> t1 + lru_expiry c"
  proof -
    from h have "k \<in> set (map key (lru_entries c'))"
      using lru_inv_keys(2) [OF c'(2)] by (simp add: lru_keys_def)
    from seq_add_find [OF this [unfolded c'(3)]] c'(3) obtain e where
      e: "find (\<lambda>e. key e = k) (lru_entries c') = Some e" "val e = v" "ttl e = t1 + lru_expiry c"
      by auto
    then have "fst (seq_get t2 k (lru_entries c')) = Some v"
      using h by (simp add: seq_get_def)
    with lru_get_seq [OF c'(2), of t2 k] show ?thesis by auto
  qed
  with c'(1) show "\<exists>c'. lru_add c t1 k v = Inr c' \<and>
         (k \<in> lru_dom c' \<and> t2 \<le> t1 + lru_expiry c \<longrightarrow>
            (\<exists>c''. lru_get c' t2 k = Inr (Some v, c'')))"
    by blast
next
  assume s: "ttl_sound tc"
  from ttl_add_inv [OF s, of clk1 k v] obtain tc' where
    tc': "ttl_add tc clk1 k v = Inr tc'" "ttl_sound tc'"
    by blast
  have "\<exists>tc''. ttl_get tc' clk2 k = Inr (Some v, tc'')"
    if h: "ttl_entry tc' k \<noteq> None \<and> clk2 0 \<le> clk1 0 + ttl_expiry tc"
  proof -
    have "\<exists>e. ttl_entry tc' k = Some e \<and> val e = v \<and> ttl e = clk1 0 + ttl_expiry tc"
    proof (cases "ttl_entry tc k")
      case (Some ee)
      from ttl_add_existing [OF s Some, of clk1 v] tc'(1) show ?thesis by auto
    next
      case None
      from ttl_add_new [OF s None, of clk1 v] obtain c1 where
        c1: "ttl_sound c1"
            "\<forall>k'. ttl_entry c1 k' =
               (if k' = k then Some \<lparr>key = k, ttl = clk1 0 + ttl_expiry tc, val = v\<rparr> else ttl_entry tc k')"
            "ttl_add tc clk1 k v =
               Inr (if ttl_maxEntries tc \<noteq> 0 \<and> ttl_len c1 > ttl_maxEntries tc
                    then ttl_purgeToCapacity c1 (later clk1) else c1)"
        by blast
      show ?thesis
      proof (cases "ttl_maxEntries tc \<noteq> 0 \<and> ttl_len c1 > ttl_maxEntries tc")
        case False
        with c1(3) tc'(1) have "tc' = c1" by simp
        then show ?thesis using c1(2) by simp
      next
        case True
        with c1(3) tc'(1) have t: "tc' = ttl_purgeToCapacity c1 (later clk1)" by simp
        from ttl_purge_walked [OF c1(1), of "later clk1"] obtain n where
          "\<forall>k'. ttl_entry (ttl_purgeToCapacity c1 (later clk1)) k' =
            (if \<exists>t \<in> set (take n (expKeys c1)). ttl_registered c1 t = Some k' then None
             else ttl_entry c1 k')"
          by blast
        then have "ttl_entry tc' k = ttl_entry c1 k \<or> ttl_entry tc' k = None"
          unfolding t by (metis (full_types))
        with h have "ttl_entry tc' k = ttl_entry c1 k" by auto
        then show ?thesis using c1(2) by simp
      qed
    qed
    then obtain e where e: "ttl_entry tc' k = Some e" "val e = v" "ttl e = clk1 0 + ttl_expiry tc"
      by blast
    from ttl_get_hit [OF tc'(2) e(1), of clk2] e(2,3) h show ?thesis by auto
  qed
  with tc'(1) show "\<exists>tc'. ttl_add tc clk1 k v = Inr tc' \<and>
         (ttl_entry tc' k \<noteq> None \<and> clk2 0 \<le> clk1 0 + ttl_expiry tc \<longrightarrow>
            (\<exists>tc''. ttl_get tc' clk2 k = Inr (Some v, tc'')))"
    by blast
qed

theorem add_get_roundtrip_witness:
  "lru_inv c3_state \<and>
   (\<exists>c'. lru_add c3_state 20 3 ''c'' = Inr c' \<and> 3 \<in> lru_dom c' \<and> (25::int) \<le> 20 + lru_expiry c3_state \<and>
      (\<exists>c''. lru_get c' 25 3 = Inr (Some ''c'', c''))) \<and>
   ttl_sound c2_state \<and>
   (\<exists>tc'. ttl_add c2_state (\<lambda>i. 20) 3 ''c'' = Inr tc' \<and> ttl_entry tc' 3 \<noteq> None \<and>
      (25::int) \<le> 20 + ttl_expiry c2_state \<and>
      (\<exists>tc''. ttl_get tc' (\<lambda>i. 25) 3 = Inr (Some ''c'', tc'')))"
proof -
  have i: "lru_inv c3_state"
    by (auto simp: lru_inv_def c3_state_def split: if_splits)
  have s: "ttl_sound c2_state"
    by (auto simp: ttl_sound_def c2_state_def ttl_entry_def ttl_registered_def UnixNano_def
        split: if_splits)
  note r = add_get_roundtrip [of c3_state 20 3 "''c''" 25 c2_state "\<lambda>i. 20" "\<lambda>i. 25"]
  from r [THEN conjunct1, THEN mp, OF i] obtain c' where
    c': "lru_add c3_state 20 3 ''c'' = Inr c'"
        "3 \<in> lru_dom c' \<and> 25 \<le> 20 + lru_expiry c3_state \<longrightarrow>
            (\<exists>c''. lru_get c' 25 3 = Inr (Some ''c'', c''))"
    by blast
  have d: "3 \<in> lru_dom c'" "(25::int) \<le> 20 + lru_expiry c3_state"
    using c'(1)
    by (auto simp: c3_state_def lru_add_def Let_def lru_removeOldest_def Back_def
        lru_removeElement_def lru_dom_def split: if_splits)
  from r [THEN conjunct2, THEN mp, OF s] obtain tc' where
    tc': "ttl_add c2_state (\<lambda>i. 20) 3 ''c'' = Inr tc'"
        "ttl_entry tc' 3 \<noteq> None \<and> 25 \<le> 20 + ttl_expiry c2_state \<longrightarrow>
            (\<exists>tc''. ttl_get tc' (\<lambda>i. 25) 3 = Inr (Some ''c'', tc''))"
    by blast
  have td: "ttl_entry tc' 3 \<noteq> None" "(25::int) \<le> 20 + ttl_expiry c2_state"
    using tc'(1)
    by (auto simp: c2_state_def ttl_add_def Let_def ttl_len_def fcard.rep_eq ttl_purgeToCapacity_def
        expKeys_def sorted_list_of_fset.rep_eq ttl_remove_def ttl_removeElement_def ttl_entry_def
        ttl_evict_def later_def UnixNano_def
        split: if_splits)
  show ?thesis using i s c' d tc' td by blast
qed

subsection \<open>After \<open>clear\<close>\<close>

lemma ttl_step_nil_or_empty:
  assumes "ttl_nil_or_empty c1 c2"
  shows "(\<exists>f. ttl_step c1 clk p = Inl f \<and> ttl_step c2 clk p = Inl f) \<or>
         (\<exists>r c1' c2'. ttl_step c1 clk p = Inr (r, c1') \<and> ttl_step c2 clk p = Inr (r, c2') \<and>
            ttl_nil_or_empty c1' c2')"
proof (cases "c1 = c2")
  case True
  then show ?thesis
    by (cases "ttl_step c2 clk p") (auto simp: ttl_nil_or_empty_def)
next
  case False
  with assms have n: "ttl_cache c1 = None" "ttl_expiration c1 = None"
    and c2: "c2 = c1\<lparr>ttl_cache := Some fmempty, ttl_expiration := Some fmempty\<rparr>"
    by (auto simp: ttl_nil_or_empty_def)
  show ?thesis
  proof (cases p)
    case (Add k v)
    have "ttl_add c1 clk k v = ttl_add c2 clk k v"
      using n by (simp add: ttl_add_def c2)
    then show ?thesis
      by (cases "ttl_add c2 clk k v") (auto simp: Add ttl_step_def ttl_nil_or_empty_def)
  next
    case (Get k)
    then show ?thesis using n assms by (simp add: ttl_step_def ttl_get_def c2)
  next
    case (Remove k)
    then show ?thesis using n assms by (simp add: ttl_step_def ttl_remove_def c2)
  next
    case Size
    then show ?thesis using n assms by (simp add: ttl_step_def ttl_size_def c2 fcard_fempty)
  next
    case Clear
    have "ttl_clear c2 = ttl_clear c1" by (simp add: ttl_clear_def c2)
    then show ?thesis by (simp add: Clear ttl_step_def ttl_nil_or_empty_def)
  qed
qed

lemma ttl_run_nil_or_empty:
  assumes "ttl_nil_or_empty c1 c2"
  shows "observed (ttl_run c1 ps) = observed (ttl_run c2 ps)"
  using assms
proof (induction ps arbitrary: c1 c2)
  case Nil
  then show ?case by (simp add: observed_def)
next
  case (Cons a ps)
  obtain clk p where a: "a = (clk, p)" by (cases a)
  from ttl_step_nil_or_empty [OF Cons.prems, of clk p] show ?case
  proof (elim disjE exE conjE)
    fix f assume "ttl_step c1 clk p = Inl f" "ttl_step c2 clk p = Inl f"
    then show ?thesis by (simp add: a observed_def)
  next
    fix r c1' c2'
    assume s: "ttl_step c1 clk p = Inr (r, c1')" "ttl_step c2 clk p = Inr (r, c2')"
      and n: "ttl_nil_or_empty c1' c2'"
    from Cons.IH [OF n] show ?thesis
      using s by (auto simp: a observed_def split: sum.splits)
  qed
qed

text \<open>
  Claim C9. In either engine and from any state: after \<open>clear\<close> the size is 0 and \<open>get\<close>
  of any key is not-found and changes nothing; a second \<open>clear\<close> changes nothing; and
  every sequence of operations returns to its caller, from the cleared engine, exactly
  what it returns from an engine newly constructed with the same parameters.
\<close>

theorem clear_like_new:
  "lru_size (lru_clear c) = Inr 0 \<and>
   lru_get (lru_clear c) now k = Inr (None, lru_clear c) \<and>
   lru_clear (lru_clear c) = lru_clear c \<and>
   observed (lru_run (lru_clear c) ps) =
     observed (lru_run (newLRU (lru_maxEntries c) (lru_expiry c)) ps) \<and>
   ttl_size (ttl_clear tc) = 0 \<and>
   ttl_get (ttl_clear tc) clk k' = Inr (None, ttl_clear tc) \<and>
   ttl_clear (ttl_clear tc) = ttl_clear tc \<and>
   observed (ttl_run (ttl_clear tc) qs) =
     observed (ttl_run (newTTLCache (ttl_maxEntries tc) (ttl_expiry tc) (ttl_updateAgeOnGet tc)) qs)"
proof (intro conjI)
  show "lru_size (lru_clear c) = Inr 0" by (simp add: lru_size_def lru_clear_def)
  show "lru_get (lru_clear c) now k = Inr (None, lru_clear c)"
    by (simp add: lru_get_def lru_clear_def)
  show "lru_clear (lru_clear c) = lru_clear c" by (simp add: lru_clear_def)
  show "ttl_size (ttl_clear tc) = 0" by (simp add: ttl_size_def ttl_clear_def)
  show "ttl_get (ttl_clear tc) clk k' = Inr (None, ttl_clear tc)"
    by (simp add: ttl_get_def ttl_clear_def)
  show "ttl_clear (ttl_clear tc) = ttl_clear tc" by (simp add: ttl_clear_def)
  show "observed (lru_run (lru_clear c) ps) =
     observed (lru_run (newLRU (lru_maxEntries c) (lru_expiry c)) ps)"
  proof -
    from lru_run_seq [OF lru_clear_seq(1), of c ps] obtain c1 where
      "lru_run (lru_clear c) ps = Inr (fst (seq_run (lru_maxEntries c) (lru_expiry c) [] ps), c1)"
      by (auto simp: lru_clear_seq)
    moreover from lru_run_seq [OF newLRU_inv(1), of "lru_maxEntries c" "lru_expiry c" ps]
    obtain c2 where
      "lru_run (newLRU (lru_maxEntries c) (lru_expiry c)) ps =
         Inr (fst (seq_run (lru_maxEntries c) (lru_expiry c) [] ps), c2)"
      by (auto simp: newLRU_inv)
    ultimately show ?thesis by (simp add: observed_def)
  qed
  show "observed (ttl_run (ttl_clear tc) qs) =
     observed (ttl_run (newTTLCache (ttl_maxEntries tc) (ttl_expiry tc) (ttl_updateAgeOnGet tc)) qs)"
  proof -
    have "ttl_nil_or_empty (ttl_clear tc)
        (newTTLCache (ttl_maxEntries tc) (ttl_expiry tc) (ttl_updateAgeOnGet tc))"
      by (cases tc) (simp add: ttl_nil_or_empty_def ttl_clear_def newTTLCache_def)
    then show ?thesis by (rule ttl_run_nil_or_empty)
  qed
qed

theorem clear_like_new_witness:
  "lru_size (lru_clear c3_state) = Inr 0 \<and>
   lru_get (lru_clear c3_state) 0 1 = Inr (None, lru_clear c3_state) \<and>
   observed (lru_run (lru_clear c3_state) [(0, Add 1 ''x''), (1, Get 1), (2, Size)]) =
     Inr [Done, Found (Some ''x''), Count 1] \<and>
   ttl_size (ttl_clear c2_state) = 0 \<and>
   ttl_get (ttl_clear c2_state) (\<lambda>i. 0) 1 = Inr (None, ttl_clear c2_state) \<and>
   observed (ttl_run (ttl_clear c2_state)
       [(\<lambda>i. 0, Add 1 ''x''), (\<lambda>i. 1, Get 1), (\<lambda>i. 2, Size)]) =
     Inr [Done, Found (Some ''x''), Count 1]"
proof -
  have a: "observed (lru_run (newLRU (lru_maxEntries c3_state) (lru_expiry c3_state))
       [(0, Add (1::nat) ''x''), (1, Get 1), (2, Size)]) = Inr [Done, Found (Some ''x''), Count 1]"
    by (simp add: observed_def lru_step_def lru_add_def lru_get_def newLRU_def c3_state_def
       lru_size_def MoveToFront_def Let_def)
  have b: "observed (ttl_run (newTTLCache (ttl_maxEntries c2_state) (ttl_expiry c2_state)
         (ttl_updateAgeOnGet c2_state))
       [(\<lambda>i. 0, Add (1::nat) ''x''), (\<lambda>i. 1, Get 1), (\<lambda>i. 2, Size)]) = Inr [Done, Found (Some ''x''), Count 1]"
    by (simp add: observed_def ttl_step_def ttl_add_def ttl_get_def newTTLCache_def c2_state_def
       ttl_size_def ttl_len_def fcard.rep_eq Let_def UnixNano_def)
  from clear_like_new [of c3_state 0 1 "[(0, Add 1 ''x''), (1, Get 1), (2, Size)]"
      c2_state "\<lambda>i. 0" 1 "[(\<lambda>i. 0, Add 1 ''x''), (\<lambda>i. 1, Get 1), (\<lambda>i. 2, Size)]"] a b
  show ?thesis by (simp del: lru_run.simps ttl_run.simps)
qed

subsection \<open>The facade\<close>

lemma ICache_step_wf:
  assumes "ICache_wf e"
  shows "\<exists>r e'. ICache_step e clk p = Inr (r, e') \<and> ICache_wf e'"
proof (cases e)
  case (LRU c)
  with assms have "lru_inv c" by (simp add: ICache_wf_def)
  from lru_step_seq [OF this, of "clk 0" p] show ?thesis
    by (auto simp: LRU ICache_step_def ICache_wf_def)
next
  case (TTLC c)
  with assms have "ttl_sound c" by (simp add: ICache_wf_def)
  from ttl_step_inv [OF this, of clk p] show ?thesis
    by (auto simp: TTLC ICache_step_def ICache_wf_def)
qed

lemma ICache_step_Done:
  "ICache_step e clk (Add k v) = Inr (r, e') \<Longrightarrow> r = Done"
  "ICache_step e clk (Remove k) = Inr (r, e') \<Longrightarrow> r = Done"
  by (auto simp: ICache_step_def lru_step_def ttl_step_def split: ICache.splits sum.splits)

text \<open>
  Claim C7, against the code. With an engine in a well-formed state, whatever the
  clock reads: when a \<open>ChangeCallbackFunc\<close> is the handler, no facade method faults,
  \<open>Add\<close> delegates to the engine and then invokes \<open>AddFunc\<close> once if it is set, and
  no callback if it is not; \<open>Get\<close> invokes \<open>GetFunc\<close> once if it is set, and no
  callback if it is not, and then delegates to the engine, whatever the engine then
  returns; \<open>Remove\<close> delegates and then invokes \<open>RemoveFunc\<close> once if it is set, and
  no callback if it is not. When no handler is configured (\<open>Callbacks\<close> is the nil
  interface), the three methods do not skip the hook: each ends in the fault
  \<open>NilHandler\<close>, \<open>Add\<close> and \<open>Remove\<close> after the engine has run, \<open>Get\<close> before.
\<close>

theorem facade_hooks:
  "ICache_wf (Cache c) \<longrightarrow>
     (case Callbacks (Config c) of
        None \<Rightarrow>
          Cache_Add c clk k v (w, tr) = Inl NilHandler \<and>
          Cache_Get c clk k (w, tr) = Inl NilHandler \<and>
          Cache_Remove c clk k (w, tr) = Inl NilHandler
      | Some cb \<Rightarrow>
          (\<exists>e. ICache_step (Cache c) clk (Add k v) = Inr (Done, e) \<and>
             Cache_Add c clk k v (w, tr) =
               Inr (c\<lparr>Cache := e\<rparr>,
                    (case AddFunc cb of None \<Rightarrow> w | Some f \<Rightarrow> f w),
                    tr @ [Engine_add] @ (case AddFunc cb of None \<Rightarrow> [] | Some f \<Rightarrow> [Hook_Add]))) \<and>
          (\<exists>r e. ICache_step (Cache c) clk (Get k) = Inr (r, e) \<and>
             Cache_Get c clk k (w, tr) =
               Inr (r, c\<lparr>Cache := e\<rparr>,
                    (case GetFunc cb of None \<Rightarrow> w | Some f \<Rightarrow> f w),
                    tr @ (case GetFunc cb of None \<Rightarrow> [] | Some f \<Rightarrow> [Hook_Get]) @ [Engine_get])) \<and>
          (\<exists>e. ICache_step (Cache c) clk (Remove k) = Inr (Done, e) \<and>
             Cache_Remove c clk k (w, tr) =
               Inr (c\<lparr>Cache := e\<rparr>,
                    (case RemoveFunc cb of None \<Rightarrow> w | Some f \<Rightarrow> f w),
                    tr @ [Engine_remove] @
                      (case RemoveFunc cb of None \<Rightarrow> [] | Some f \<Rightarrow> [Hook_Remove]))))"
proof
  assume wf: "ICache_wf (Cache c)"
  from ICache_step_wf [OF wf, of clk "Add k v"] obtain ra ea where
    "ICache_step (Cache c) clk (Add k v) = Inr (ra, ea)" by blast
  with ICache_step_Done(1) have a: "ICache_step (Cache c) clk (Add k v) = Inr (Done, ea)"
    by fastforce
  from ICache_step_wf [OF wf, of clk "Get k"] obtain rg eg where
    g: "ICache_step (Cache c) clk (Get k) = Inr (rg, eg)" by blast
  from ICache_step_wf [OF wf, of clk "Remove k"] obtain rr er where
    "ICache_step (Cache c) clk (Remove k) = Inr (rr, er)" by blast
  with ICache_step_Done(2) have r: "ICache_step (Cache c) clk (Remove k) = Inr (Done, er)"
    by fastforce
  show "case Callbacks (Config c) of
        None \<Rightarrow>
          Cache_Add c clk k v (w, tr) = Inl NilHandler \<and>
          Cache_Get c clk k (w, tr) = Inl NilHandler \<and>
          Cache_Remove c clk k (w, tr) = Inl NilHandler
      | Some cb \<Rightarrow>
          (\<exists>e. ICache_step (Cache c) clk (Add k v) = Inr (Done, e) \<and>
             Cache_Add c clk k v (w, tr) =
               Inr (c\<lparr>Cache := e\<rparr>,
                    (case AddFunc cb of None \<Rightarrow> w | Some f \<Rightarrow> f w),
                    tr @ [Engine_add] @ (case AddFunc cb of None \<Rightarrow> [] | Some f \<Rightarrow> [Hook_Add]))) \<and>
          (\<exists>r e. ICache_step (Cache c) clk (Get k) = Inr (r, e) \<and>
             Cache_Get c clk k (w, tr) =
               Inr (r, c\<lparr>Cache := e\<rparr>,
                    (case GetFunc cb of None \<Rightarrow> w | Some f \<Rightarrow> f w),
                    tr @ (case GetFunc cb of None \<Rightarrow> [] | Some f \<Rightarrow> [Hook_Get]) @ [Engine_get])) \<and>
          (\<exists>e. ICache_step (Cache c) clk (Remove k) = Inr (Done, e) \<and>
             Cache_Remove c clk k (w, tr) =
               Inr (c\<lparr>Cache := e\<rparr>,
                    (case RemoveFunc cb of None \<Rightarrow> w | Some f \<Rightarrow> f w),
                    tr @ [Engine_remove] @
                      (case RemoveFunc cb of None \<Rightarrow> [] | Some f \<Rightarrow> [Hook_Remove])))"
  proof (cases "Callbacks (Config c)")
    case None
    then show ?thesis
      using a r by (simp add: Cache_Add_def Cache_Get_def Cache_Remove_def)
  next
    case (Some cb)
    have "Cache_Add c clk k v (w, tr) =
               Inr (c\<lparr>Cache := ea\<rparr>,
                    (case AddFunc cb of None \<Rightarrow> w | Some f \<Rightarrow> f w),
                    tr @ [Engine_add] @ (case AddFunc cb of None \<Rightarrow> [] | Some f \<Rightarrow> [Hook_Add]))"
      using a Some by (auto simp: Cache_Add_def OnAdd_def split: option.splits)
    moreover have "Cache_Get c clk k (w, tr) =
               Inr (rg, c\<lparr>Cache := eg\<rparr>,
                    (case GetFunc cb of None \<Rightarrow> w | Some f \<Rightarrow> f w),
                    tr @ (case GetFunc cb of None \<Rightarrow> [] | Some f \<Rightarrow> [Hook_Get]) @ [Engine_get])"
      using g Some by (auto simp: Cache_Get_def OnGet_def Let_def split: option.splits)
    moreover have "Cache_Remove c clk k (w, tr) =
               Inr (c\<lparr>Cache := er\<rparr>,
                    (case RemoveFunc cb of None \<Rightarrow> w | Some f \<Rightarrow> f w),
                    tr @ [Engine_remove] @
                      (case RemoveFunc cb of None \<Rightarrow> [] | Some f \<Rightarrow> [Hook_Remove]))"
      using r Some by (auto simp: Cache_Remove_def OnRemove_def split: option.splits)
    ultimately show ?thesis using a g r Some by simp
  qed
qed

theorem facade_hooks_witness:
  "ICache_wf (Cache counted_cache) \<and> Callbacks (Config counted_cache) = Some counting \<and>
   env_after (Cache_Add counted_cache (\<lambda>i. 0) 1 ''a'' (0, [])) = Some (1, [Engine_add, Hook_Add]) \<and>
   (\<exists>e. Cache_Get counted_cache (\<lambda>i. 0) 7 (0, []) =
          Inr (Found None, e, (1, [Hook_Get, Engine_get]))) \<and>
   env_after (Cache_Remove counted_cache (\<lambda>i. 0) 1 (0, [])) =
     Some (1, [Engine_remove, Hook_Remove]) \<and>
   ICache_wf (Cache nil_handler_cache) \<and> Callbacks (Config nil_handler_cache) = None \<and>
   Cache_Add nil_handler_cache (\<lambda>i. 0) 1 ''a'' (0, []) = Inl NilHandler \<and>
   Cache_Get nil_handler_cache (\<lambda>i. 0) 1 (0, []) = Inl NilHandler \<and>
   Cache_Remove nil_handler_cache (\<lambda>i. 0) 1 (0, []) = Inl NilHandler"
proof -
  have wf: "ICache_wf (Cache counted_cache)"
    by (simp add: counted_cache_def NewCache_def LRUCacheMode_def ICache_wf_def newLRU_inv)
  have cb: "Callbacks (Config counted_cache) = Some counting"
    by (simp add: counted_cache_def NewCache_def NewCacheConfig_def)
  have g: "ICache_step (Cache counted_cache) (\<lambda>i. 0) (Get 7) = Inr (r, e) \<Longrightarrow> r = Found None"
    for r e
    by (auto simp: counted_cache_def NewCache_def LRUCacheMode_def ICache_step_def lru_step_def
        lru_get_def newLRU_def NewCacheConfig_def)
  have wf': "ICache_wf (Cache nil_handler_cache)"
    by (simp add: nil_handler_cache_def NewCache_def LRUCacheMode_def ICache_wf_def newLRU_inv)
  have cb': "Callbacks (Config nil_handler_cache) = None"
    by (simp add: nil_handler_cache_def NewCache_def NewCacheConfig_def)
  from facade_hooks [of counted_cache "\<lambda>i. 0" 1 "''a''" 0 "[]"]
    facade_hooks [of counted_cache "\<lambda>i. 0" 7 "''a''" 0 "[]"] wf cb g
  have p: "env_after (Cache_Add counted_cache (\<lambda>i. 0) 1 ''a'' (0, [])) =
        Some (1, [Engine_add, Hook_Add]) \<and>
     (\<exists>e. Cache_Get counted_cache (\<lambda>i. 0) 7 (0, []) =
          Inr (Found None, e, (1, [Hook_Get, Engine_get]))) \<and>
     env_after (Cache_Remove counted_cache (\<lambda>i. 0) 1 (0, [])) =
       Some (1, [Engine_remove, Hook_Remove])"
    by (auto simp: env_after_def counting_def)
  from facade_hooks [of nil_handler_cache "\<lambda>i. 0" 1 "''a''" 0 "[]"] wf' cb'
  have q: "Cache_Add nil_handler_cache (\<lambda>i. 0) 1 ''a'' (0, []) = Inl NilHandler \<and>
     Cache_Get nil_handler_cache (\<lambda>i. 0) 1 (0, []) = Inl NilHandler \<and>
     Cache_Remove nil_handler_cache (\<lambda>i. 0) 1 (0, []) = Inl NilHandler"
    by simp
  show ?thesis using wf cb wf' cb' p q by simp
qed

text \<open>
  Claim C8 as stated fails: with all three callbacks set, \<open>Clear\<close> leaves the world as
  it was, and the trace holds the delegation to the engine and no callback.
\<close>

theorem facade_clear_counterexample:
  "AddFunc counting \<noteq> None \<and> GetFunc counting \<noteq> None \<and> RemoveFunc counting \<noteq> None \<and>
   Callbacks (Config counted_cache) = Some counting \<and>
   env_after (Cache_Clear counted_cache (\<lambda>i. 0) (0, [])) = Some (0, [Engine_clear])"
  by (simp add: counting_def counted_cache_def NewCache_def NewCacheConfig_def LRUCacheMode_def
      Cache_Clear_def ICache_step_def lru_step_def env_after_def)

text \<open>
  Claim C8, as amended. \<open>Clear\<close> delegates to the \<open>clear\<close> of the engine and does
  nothing else: whatever the configuration, set callbacks, unset ones or no handler at
  all, and whatever the clock reads, it does not fault, the world is as it was, and the
  trace gains the delegation alone.
\<close>

theorem facade_clear_no_callback:
  "\<exists>e. ICache_step (Cache c) clk Clear = Inr (Done, e) \<and>
       Cache_Clear c clk (w, tr) = Inr (c\<lparr>Cache := e\<rparr>, (w, tr @ [Engine_clear]))"
  by (cases "Cache c") (simp_all add: Cache_Clear_def ICache_step_def lru_step_def ttl_step_def)

subsection \<open>The default expiry window\<close>

lemma ttl_run_params:
  assumes "ttl_sound c"
  shows "\<exists>rs c'. ttl_run c ps = Inr (rs, c') \<and> ttl_sound c' \<and>
           ttl_maxEntries c' = ttl_maxEntries c \<and> ttl_expiry c' = ttl_expiry c \<and>
           ttl_updateAgeOnGet c' = ttl_updateAgeOnGet c"
  using assms
proof (induction ps arbitrary: c)
  case Nil then show ?case by simp
next
  case (Cons a ps)
  obtain clk p where a: "a = (clk, p)" by (cases a)
  from ttl_step_inv [OF Cons.prems, of clk p] obtain r c1 where
    c1: "ttl_step c clk p = Inr (r, c1)" "ttl_sound c1"
        "ttl_maxEntries c1 = ttl_maxEntries c" "ttl_expiry c1 = ttl_expiry c"
        "ttl_updateAgeOnGet c1 = ttl_updateAgeOnGet c"
    by blast
  from Cons.IH [OF c1(2)] c1 show ?case by (auto simp: a)
qed

text \<open>The recency engine: an entry of the key keeps its \<open>ttl\<close> until the key is added.\<close>

lemma seq_add_ttl:
  assumes "e \<in> set (seq_add M d now k v es)" "key e = k"
  shows "ttl e = now + d"
proof (cases "find (\<lambda>e. key e = k) es")
  case (Some e0)
  then show ?thesis using assms by (auto simp: seq_add_def)
next
  case None
  then have n: "\<forall>x \<in> set es. key x \<noteq> k" by (auto simp: find_None_iff)
  have "e \<in> set (\<lparr>key = k, ttl = now + d, val = v\<rparr> # es)"
    using assms(1) None by (auto simp: seq_add_def Let_def split: if_splits dest: in_set_butlastD)
  moreover have "e \<notin> set es" using n assms(2) by blast
  ultimately have "e = \<lparr>key = k, ttl = now + d, val = v\<rparr>" by simp
  then have "ttl e = ttl \<lparr>key = k, ttl = now + d, val = v\<rparr>" by (rule arg_cong)
  then show ?thesis by simp
qed

lemma seq_step_keeps:
  assumes "\<not> adds k p" "e \<in> set (snd (seq_step M d now p es))" "key e = k"
  shows "e \<in> set es"
proof (cases p)
  case (Add k' v')
  with assms(1) have ne: "k' \<noteq> k" by (simp add: adds_def)
  show ?thesis
  proof (cases "find (\<lambda>e. key e = k') es")
    case (Some e0)
    then have "key e0 = k'" by (auto simp: find_Some_iff)
    then show ?thesis using assms(2,3) Some ne by (auto simp: Add seq_step_def seq_add_def)
  next
    case None
    have "e \<in> set (\<lparr>key = k', ttl = now + d, val = v'\<rparr> # es)"
      using assms(2) None
      by (auto simp: Add seq_step_def seq_add_def Let_def split: if_splits dest: in_set_butlastD)
    then show ?thesis using assms(3) ne by auto
  qed
next
  case (Get k')
  show ?thesis
  proof (cases "find (\<lambda>e. key e = k') es")
    case None
    then show ?thesis using assms(2) by (simp add: Get seq_step_def seq_get_def)
  next
    case (Some e0)
    then have "e0 \<in> set es" by (auto simp: find_Some_iff in_set_conv_nth)
    then show ?thesis
      using assms(2) Some by (auto simp: Get seq_step_def seq_get_def split: if_splits)
  qed
next
  case (Remove k')
  then show ?thesis using assms(2) by (simp add: seq_step_def)
next
  case Size
  then show ?thesis using assms(2) by (simp add: seq_step_def)
next
  case Clear
  then show ?thesis using assms(2) by (simp add: seq_step_def)
qed

lemma seq_run_keeps:
  assumes "lru_unrefreshed k qs" "e \<in> set (snd (seq_run M d es qs))" "key e = k"
  shows "e \<in> set es"
  using assms
proof (induction qs arbitrary: es)
  case Nil
  then show ?case by simp
next
  case (Cons a qs)
  obtain now p where a: "a = (now, p)" by (cases a)
  from Cons.prems(1) have u: "\<not> adds k p" "lru_unrefreshed k qs"
    by (simp_all add: a lru_unrefreshed_def)
  from Cons.prems(2) have "e \<in> set (snd (seq_run M d (snd (seq_step M d now p es)) qs))"
    by (simp add: a)
  from Cons.IH [OF u(2) this Cons.prems(3)] have "e \<in> set (snd (seq_step M d now p es))" .
  from seq_step_keeps [OF u(1) this Cons.prems(3)] show ?case .
qed

lemma seq_run_append:
  "seq_run M d es (ps @ qs) =
     (fst (seq_run M d es ps) @ fst (seq_run M d (snd (seq_run M d es ps)) qs),
      snd (seq_run M d (snd (seq_run M d es ps)) qs))"
  by (induction ps arbitrary: es) auto

lemma seq_get_expired:
  assumes "\<forall>e \<in> set es. key e = k \<longrightarrow> ttl e < now"
  shows "fst (seq_get now k es) = None"
proof (cases "find (\<lambda>e. key e = k) es")
  case None
  then show ?thesis by (simp add: seq_get_def)
next
  case (Some e0)
  then have "e0 \<in> set es" "key e0 = k" by (auto simp: find_Some_iff in_set_conv_nth)
  with assms have "ttl e0 < now" by blast
  then show ?thesis using Some by (simp add: seq_get_def)
qed

lemma newLRU_expiry: "lru_expiry (newLRU M d) = d"
  by (simp add: newLRU_def)

lemma lru_window:
  assumes "lru_inv c0" "lru_unrefreshed k qs" "t1 + lru_expiry c0 < t2"
  shows "\<exists>rs1 c1. lru_run c0 (ps @ [(t1, Add k v)]) = Inr (rs1, c1) \<and>
           (\<exists>rs c. lru_run c1 (qs @ [(t2, Get k)]) = Inr (rs, c) \<and> last rs = Found None)"
proof -
  let ?M = "lru_maxEntries c0" and ?d = "lru_expiry c0"
  from lru_run_seq [OF assms(1), of "ps @ [(t1, Add k v)]"] obtain c1 where
    c1: "lru_run c0 (ps @ [(t1, Add k v)]) =
           Inr (fst (seq_run ?M ?d (lru_entries c0) (ps @ [(t1, Add k v)])), c1)"
        "lru_inv c1"
        "lru_entries c1 = snd (seq_run ?M ?d (lru_entries c0) (ps @ [(t1, Add k v)]))"
        "lru_maxEntries c1 = ?M" "lru_expiry c1 = ?d"
    by blast
  have e1: "lru_entries c1 = seq_add ?M ?d t1 k v (snd (seq_run ?M ?d (lru_entries c0) ps))"
    unfolding c1(3) seq_run_append by (simp add: seq_step_def)
  from lru_run_seq [OF c1(2), of "qs @ [(t2, Get k)]"] obtain c where
    c: "lru_run c1 (qs @ [(t2, Get k)]) =
          Inr (fst (seq_run ?M ?d (lru_entries c1) (qs @ [(t2, Get k)])), c)"
    by (auto simp: c1(4,5))
  let ?es = "snd (seq_run ?M ?d (lru_entries c1) qs)"
  have "\<forall>e \<in> set ?es. key e = k \<longrightarrow> ttl e < t2"
  proof (intro ballI impI)
    fix e assume e: "e \<in> set ?es" "key e = k"
    from seq_run_keeps [OF assms(2) e] have "e \<in> set (lru_entries c1)" .
    from seq_add_ttl [OF this [unfolded e1] e(2)] assms(3) show "ttl e < t2" by simp
  qed
  then have "fst (seq_get t2 k ?es) = None" by (rule seq_get_expired)
  then have "last (fst (seq_run ?M ?d (lru_entries c1) (qs @ [(t2, Get k)]))) = Found None"
    unfolding seq_run_append by (simp add: seq_step_def)
  with c1(1) c show ?thesis by auto
qed

text \<open>The expiry engine: an entry of the key keeps its \<open>ttl\<close> until an operation writes it.\<close>

lemma ttl_purge_entry:
  assumes "ttl_sound c"
  shows "ttl_entry (ttl_purgeToCapacity c clk) k = ttl_entry c k \<or>
         ttl_entry (ttl_purgeToCapacity c clk) k = None"
proof -
  from ttl_purge_walked [OF assms, of clk] obtain n where
    "\<forall>k'. ttl_entry (ttl_purgeToCapacity c clk) k' =
            (if \<exists>t \<in> set (take n (expKeys c)). ttl_registered c t = Some k' then None
             else ttl_entry c k')"
    by blast
  then show ?thesis by (metis (full_types))
qed

lemma ttl_add_entry:
  assumes "ttl_sound c" "ttl_add c clk k v = Inr c'"
  shows "ttl_entry c' k = None \<or>
         (\<exists>e. ttl_entry c' k = Some e \<and> ttl e = clk 0 + ttl_expiry c \<and> val e = v)"
    and "k' \<noteq> k \<Longrightarrow> ttl_entry c' k' = ttl_entry c k' \<or> ttl_entry c' k' = None"
proof -
  have "(ttl_entry c' k = None \<or>
         (\<exists>e. ttl_entry c' k = Some e \<and> ttl e = clk 0 + ttl_expiry c \<and> val e = v)) \<and>
        (k' \<noteq> k \<longrightarrow> ttl_entry c' k' = ttl_entry c k' \<or> ttl_entry c' k' = None)"
  proof (cases "ttl_entry c k")
    case (Some ee)
    from ttl_add_existing [OF assms(1) Some, of clk v] assms(2) show ?thesis by auto
  next
    case None
    from ttl_add_new [OF assms(1) None, of clk v] obtain c1 where
      c1: "ttl_sound c1"
          "\<forall>k'. ttl_entry c1 k' =
             (if k' = k then Some \<lparr>key = k, ttl = clk 0 + ttl_expiry c, val = v\<rparr>
              else ttl_entry c k')"
          "ttl_add c clk k v =
             Inr (if ttl_maxEntries c \<noteq> 0 \<and> ttl_len c1 > ttl_maxEntries c
                  then ttl_purgeToCapacity c1 (later clk) else c1)"
      by blast
    have "c' = c1 \<or> c' = ttl_purgeToCapacity c1 (later clk)"
      using c1(3) assms(2) by (auto split: if_splits)
    then have "(ttl_entry c' k = ttl_entry c1 k \<or> ttl_entry c' k = None) \<and>
               (ttl_entry c' k' = ttl_entry c1 k' \<or> ttl_entry c' k' = None)"
    proof
      assume "c' = c1"
      then show ?thesis by simp
    next
      assume "c' = ttl_purgeToCapacity c1 (later clk)"
      then show ?thesis
        using ttl_purge_entry [OF c1(1), of "later clk" k]
          ttl_purge_entry [OF c1(1), of "later clk" k']
        by simp
    qed
    then show ?thesis using c1(2) by auto
  qed
  then show "ttl_entry c' k = None \<or>
         (\<exists>e. ttl_entry c' k = Some e \<and> ttl e = clk 0 + ttl_expiry c \<and> val e = v)"
    and "k' \<noteq> k \<Longrightarrow> ttl_entry c' k' = ttl_entry c k' \<or> ttl_entry c' k' = None"
    by simp_all
qed

lemma ttl_get_entry:
  assumes "ttl_sound c" "ttl_get c clk k' = Inr (r, c')"
    and "case ttl_writes c clk (Get k') of None \<Rightarrow> True | Some (k'', t) \<Rightarrow> k'' \<noteq> k"
  shows "ttl_entry c' k = ttl_entry c k \<or> ttl_entry c' k = None"
proof (cases "ttl_entry c k'")
  case None
  then have "ttl_get c clk k' = Inr (None, c)"
    by (auto simp: ttl_get_def ttl_entry_def split: option.splits)
  with assms(2) show ?thesis by simp
next
  case (Some ee)
  then obtain m where m: "ttl_cache c = Some m" "fmlookup m k' = Some ee"
    by (auto simp: ttl_entry_def split: option.splits)
  show ?thesis
  proof (cases "clk 0 > ttl ee")
    case True
    then have "c' = ttl_remove c k'" using assms(2) m by (simp add: ttl_get_def)
    then show ?thesis by (auto simp: ttl_remove_entry split: option.splits)
  next
    case False
    show ?thesis
    proof (cases "ttl_updateAgeOnGet c")
      case u: False
      then have "c' = c" using assms(2) m False by (simp add: ttl_get_def)
      then show ?thesis by simp
    next
      case u: True
      with assms(3) Some False have ne: "k' \<noteq> k" by (simp add: ttl_writes_def)
      have x: "ttl_expiration c \<noteq> None" using assms(1) m by (simp add: ttl_sound_def)
      from ttl_changeTTL_hit [OF Some x, of "clk 1"] obtain c1 where
        c1: "ttl_changeTTL c (clk 1) k' = Inr c1"
            "\<forall>k''. ttl_entry c1 k'' =
               (if k'' = k' then Some (ee\<lparr>ttl := clk 1 + ttl_expiry c\<rparr>) else ttl_entry c k'')"
        by auto
      have "c' = c1" using assms(2) m False u c1(1) by (simp add: ttl_get_def)
      then show ?thesis using c1(2) ne by simp
    qed
  qed
qed

lemma ttl_step_entry:
  assumes "ttl_sound c" "ttl_step c clk p = Inr (r, c')"
    and "case ttl_writes c clk p of None \<Rightarrow> True | Some (k'', t) \<Rightarrow> k'' \<noteq> k"
  shows "ttl_entry c' k = ttl_entry c k \<or> ttl_entry c' k = None"
proof (cases p)
  case (Add k' v')
  with assms(3) have ne: "k \<noteq> k'" by (auto simp: ttl_writes_def)
  from assms(2) have "ttl_add c clk k' v' = Inr c'"
    by (auto simp: Add ttl_step_def split: sum.splits)
  from ttl_add_entry(2) [OF assms(1) this ne] show ?thesis .
next
  case (Get k')
  from assms(2) obtain r' where "ttl_get c clk k' = Inr (r', c')"
    by (auto simp: Get ttl_step_def split: sum.splits)
  from ttl_get_entry [OF assms(1) this] assms(3) show ?thesis by (simp add: Get)
next
  case (Remove k')
  with assms(2) have "c' = ttl_remove c k'" by (simp add: ttl_step_def)
  then show ?thesis by (auto simp: ttl_remove_entry split: option.splits)
next
  case Size
  with assms(2) show ?thesis by (auto simp: ttl_step_def)
next
  case Clear
  with assms(2) have "c' = ttl_clear c" by (simp add: ttl_step_def)
  then show ?thesis by (simp add: ttl_clear_def ttl_entry_def)
qed

lemma ttl_run_entry:
  assumes "ttl_sound c" "ttl_unrefreshed c k qs"
  shows "\<exists>rs c'. ttl_run c qs = Inr (rs, c') \<and> ttl_sound c' \<and>
           (ttl_entry c' k = ttl_entry c k \<or> ttl_entry c' k = None)"
  using assms
proof (induction qs arbitrary: c)
  case Nil
  then show ?case by simp
next
  case (Cons a qs)
  obtain clk p where a: "a = (clk, p)" by (cases a)
  from ttl_step_inv [OF Cons.prems(1), of clk p] obtain r c1 where
    c1: "ttl_step c clk p = Inr (r, c1)" "ttl_sound c1"
    by blast
  from Cons.prems(2) c1(1) have
    u: "case ttl_writes c clk p of None \<Rightarrow> True | Some (k'', t) \<Rightarrow> k'' \<noteq> k"
       "ttl_unrefreshed c1 k qs"
    by (simp_all add: a)
  from ttl_step_entry [OF Cons.prems(1) c1(1) u(1)]
  have e1: "ttl_entry c1 k = ttl_entry c k \<or> ttl_entry c1 k = None" .
  from Cons.IH [OF c1(2) u(2)] obtain rs c' where
    c': "ttl_run c1 qs = Inr (rs, c')" "ttl_sound c'"
        "ttl_entry c' k = ttl_entry c1 k \<or> ttl_entry c' k = None"
    by blast
  have "ttl_entry c' k = ttl_entry c k \<or> ttl_entry c' k = None" using e1 c'(3) by auto
  then show ?case using c1(1) c'(1,2) by (auto simp: a)
qed

lemma ttl_run_append:
  "ttl_run c (ps @ qs) =
     (case ttl_run c ps of
        Inl f \<Rightarrow> Inl f
      | Inr (rs, c') \<Rightarrow>
          (case ttl_run c' qs of Inl f \<Rightarrow> Inl f | Inr (rs', c'') \<Rightarrow> Inr (rs @ rs', c'')))"
  by (induction ps arbitrary: c) (auto split: sum.splits)

lemma ttl_get_expired:
  assumes "\<forall>e. ttl_entry c k = Some e \<longrightarrow> ttl e < clk 0"
  shows "\<exists>c'. ttl_get c clk k = Inr (None, c')"
proof (cases "ttl_entry c k")
  case None
  then have "ttl_get c clk k = Inr (None, c)"
    by (auto simp: ttl_get_def ttl_entry_def split: option.splits)
  then show ?thesis by blast
next
  case (Some e)
  then obtain m where "ttl_cache c = Some m" "fmlookup m k = Some e"
    by (auto simp: ttl_entry_def split: option.splits)
  then have "ttl_get c clk k = Inr (None, ttl_remove c k)"
    using assms Some by (simp add: ttl_get_def)
  then show ?thesis by blast
qed

lemma ttl_unrefreshed_no_update:
  assumes "ttl_sound c" "\<not> ttl_updateAgeOnGet c" "list_all (\<lambda>cp. \<not> adds k (snd cp)) qs"
  shows "ttl_unrefreshed c k qs"
  using assms
proof (induction qs arbitrary: c)
  case Nil
  then show ?case by simp
next
  case (Cons a qs)
  obtain clk p where a: "a = (clk, p)" by (cases a)
  from Cons.prems(3) have n: "\<not> adds k p" "list_all (\<lambda>cp. \<not> adds k (snd cp)) qs"
    by (simp_all add: a)
  from ttl_step_inv [OF Cons.prems(1), of clk p] obtain r c1 where
    c1: "ttl_step c clk p = Inr (r, c1)" "ttl_sound c1"
        "ttl_updateAgeOnGet c1 = ttl_updateAgeOnGet c"
    by blast
  have w: "case ttl_writes c clk p of None \<Rightarrow> True | Some (k'', t) \<Rightarrow> k'' \<noteq> k"
    using n(1) Cons.prems(2) by (cases p) (auto simp: ttl_writes_def adds_def split: option.splits)
  from Cons.IH [OF c1(2) _ n(2)] c1(3) Cons.prems(2) have "ttl_unrefreshed c1 k qs" by simp
  with w c1(1) show ?case by (simp add: a)
qed

lemma newTTLCache_params:
  "ttl_expiry (newTTLCache M d u) = d" "ttl_updateAgeOnGet (newTTLCache M d u) = u"
  by (simp_all add: newTTLCache_def)

lemma ttl_window:
  assumes "ttl_sound c0"
  shows "\<exists>rs1 c1. ttl_run c0 (ps @ [(clk1, Add k v)]) = Inr (rs1, c1) \<and>
           (\<not> ttl_updateAgeOnGet c0 \<and> list_all (\<lambda>cp. \<not> adds k (snd cp)) qs \<longrightarrow>
              ttl_unrefreshed c1 k qs) \<and>
           (ttl_unrefreshed c1 k qs \<and> clk1 0 + ttl_expiry c0 < clk2 0 \<longrightarrow>
              (\<exists>rs c. ttl_run c1 (qs @ [(clk2, Get k)]) = Inr (rs, c) \<and> last rs = Found None))"
proof -
  from ttl_run_params [OF assms, of ps] obtain rs0 c where
    c: "ttl_run c0 ps = Inr (rs0, c)" "ttl_sound c" "ttl_expiry c = ttl_expiry c0"
       "ttl_updateAgeOnGet c = ttl_updateAgeOnGet c0"
    by blast
  from ttl_add_inv [OF c(2), of clk1 k v] obtain c1 where
    c1: "ttl_add c clk1 k v = Inr c1" "ttl_sound c1"
        "ttl_updateAgeOnGet c1 = ttl_updateAgeOnGet c"
    by blast
  have r1: "ttl_run c0 (ps @ [(clk1, Add k v)]) = Inr (rs0 @ [Done], c1)"
    using c(1) c1(1) by (simp add: ttl_run_append ttl_step_def)
  have e1: "\<forall>e. ttl_entry c1 k = Some e \<longrightarrow> ttl e = clk1 0 + ttl_expiry c0"
    using ttl_add_entry(1) [OF c(2) c1(1)] c(3) by auto
  have a: "ttl_unrefreshed c1 k qs"
    if "\<not> ttl_updateAgeOnGet c0 \<and> list_all (\<lambda>cp. \<not> adds k (snd cp)) qs"
    using that c1(3) c(4) by (intro ttl_unrefreshed_no_update [OF c1(2)]) simp_all
  have b: "\<exists>rs c. ttl_run c1 (qs @ [(clk2, Get k)]) = Inr (rs, c) \<and> last rs = Found None"
    if h: "ttl_unrefreshed c1 k qs \<and> clk1 0 + ttl_expiry c0 < clk2 0"
  proof -
    from h have u: "ttl_unrefreshed c1 k qs" and lt: "clk1 0 + ttl_expiry c0 < clk2 0"
      by simp_all
    from ttl_run_entry [OF c1(2) u] obtain rs2 c2 where
      c2: "ttl_run c1 qs = Inr (rs2, c2)"
          "ttl_entry c2 k = ttl_entry c1 k \<or> ttl_entry c2 k = None"
      by blast
    have "\<forall>e. ttl_entry c2 k = Some e \<longrightarrow> ttl e < clk2 0"
      using c2(2) e1 lt by auto
    with ttl_get_expired [of c2 k clk2] obtain c3 where "ttl_get c2 clk2 k = Inr (None, c3)"
      by blast
    then have "ttl_run c1 (qs @ [(clk2, Get k)]) = Inr (rs2 @ [Found None], c3)"
      using c2(1) by (simp add: ttl_run_append ttl_step_def)
    then show ?thesis by simp
  qed
  show ?thesis using r1 a b by blast
qed

text \<open>
  Claim C10, as amended. For a configuration with \<open>TTL = 0\<close>, \<open>LRUWithTTLCacheMode\<close>
  and \<open>TTLCacheMode\<close> write \<open>defaultDuration\<close> into the configuration and build their
  engine with it; \<open>defaultDuration\<close> is 10 nanoseconds, not the 10 seconds
  (\<open>10 * 10^9\<close> nanoseconds) of the comment. On such an engine, after any sequence of
  operations \<open>ps\<close>, a key added at \<open>t1\<close> is not found by a lookup at any \<open>t2\<close> more than
  10 nanoseconds later, whatever operations \<open>qs\<close> come in between, provided none of
  them gives the entry a new \<open>ttl\<close>: in the recency engine no \<open>add\<close> of the key; in the
  expiry engine no \<open>add\<close> of the key and, when it updates the age on \<open>get\<close>, no \<open>get\<close>
  of the key that finds it unexpired. No operation of the run faults. In the expiry
  engine \<open>t1\<close> and \<open>t2\<close> are the readings \<open>clk1 0\<close> and \<open>clk2 0\<close> of the clock that the
  \<open>add\<close> takes for the \<open>ttl\<close> and the \<open>get\<close> for its test.
\<close>

theorem default_duration_window:
  "(TTL cc = 0 \<longrightarrow>
      LRUWithTTLCacheMode cc = (LRU (newLRU (MaxEntries cc) 10), cc\<lparr>TTL := 10\<rparr>) \<and>
      TTLCacheMode cc u = (TTLC (newTTLCache (MaxEntries cc) 10 u), cc\<lparr>TTL := 10\<rparr>)) \<and>
   defaultDuration = 10 \<and> defaultDuration \<noteq> 10 * 10 ^ 9 \<and>
   (lru_unrefreshed k qs \<and> t1 + 10 < t2 \<longrightarrow>
      (\<exists>rs1 c1. lru_run (newLRU M defaultDuration) (ps @ [(t1, Add k v)]) = Inr (rs1, c1) \<and>
         (\<exists>rs c. lru_run c1 (qs @ [(t2, Get k)]) = Inr (rs, c) \<and> last rs = Found None))) \<and>
   (\<exists>rs1 c1. ttl_run (newTTLCache M defaultDuration u) (ps' @ [(clk1, Add k' v')]) = Inr (rs1, c1) \<and>
      (\<not> u \<and> list_all (\<lambda>cp. \<not> adds k' (snd cp)) qs' \<longrightarrow> ttl_unrefreshed c1 k' qs') \<and>
      (ttl_unrefreshed c1 k' qs' \<and> clk1 0 + 10 < clk2 0 \<longrightarrow>
         (\<exists>rs c. ttl_run c1 (qs' @ [(clk2, Get k')]) = Inr (rs, c) \<and> last rs = Found None)))"
proof (intro conjI impI)
  assume "TTL cc = 0"
  then show "LRUWithTTLCacheMode cc = (LRU (newLRU (MaxEntries cc) 10), cc\<lparr>TTL := 10\<rparr>)"
    by (simp add: LRUWithTTLCacheMode_def defaultDuration_def Let_def)
next
  assume "TTL cc = 0"
  then show "TTLCacheMode cc u = (TTLC (newTTLCache (MaxEntries cc) 10 u), cc\<lparr>TTL := 10\<rparr>)"
    by (simp add: TTLCacheMode_def defaultDuration_def Let_def)
next
  show "defaultDuration = 10" by (simp add: defaultDuration_def)
next
  show "defaultDuration \<noteq> 10 * 10 ^ 9" by (simp add: defaultDuration_def)
next
  assume h: "lru_unrefreshed k qs \<and> t1 + 10 < t2"
  from lru_window [of "newLRU M defaultDuration" k qs t1 t2 ps v] h
  show "\<exists>rs1 c1. lru_run (newLRU M defaultDuration) (ps @ [(t1, Add k v)]) = Inr (rs1, c1) \<and>
         (\<exists>rs c. lru_run c1 (qs @ [(t2, Get k)]) = Inr (rs, c) \<and> last rs = Found None)"
    by (simp add: newLRU_inv newLRU_expiry defaultDuration_def)
next
  from ttl_window [OF newTTLCache_sound, of M defaultDuration u ps' clk1 k' v' qs' clk2]
  show "\<exists>rs1 c1. ttl_run (newTTLCache M defaultDuration u) (ps' @ [(clk1, Add k' v')]) = Inr (rs1, c1) \<and>
      (\<not> u \<and> list_all (\<lambda>cp. \<not> adds k' (snd cp)) qs' \<longrightarrow> ttl_unrefreshed c1 k' qs') \<and>
      (ttl_unrefreshed c1 k' qs' \<and> clk1 0 + 10 < clk2 0 \<longrightarrow>
         (\<exists>rs c. ttl_run c1 (qs' @ [(clk2, Get k')]) = Inr (rs, c) \<and> last rs = Found None))"
    by (simp add: newTTLCache_params defaultDuration_def)
qed

theorem default_duration_window_witness:
  "TTL unset_ttl_config = 0 \<and>
   fst (LRUWithTTLCacheMode unset_ttl_config) = (LRU (newLRU 20 10) :: (nat, string) ICache) \<and>
   fst (TTLCacheMode unset_ttl_config False) = (TTLC (newTTLCache 20 10 False) :: (nat, string) ICache) \<and>
   lru_unrefreshed (2::nat) [(8, Get 1 :: (nat, string) op)] \<and> (5::int) + 10 < 16 \<and>
   (\<exists>rs1 c1 rs c.
      lru_run (newLRU 20 defaultDuration) ([(0, Add (1::nat) ''a'')] @ [(5, Add 2 ''b'')]) =
        Inr (rs1, c1) \<and>
      lru_run c1 ([(8, Get 1)] @ [(16, Get 2)]) = Inr (rs, c) \<and> last rs = Found None) \<and>
   list_all (\<lambda>cp. \<not> adds (2::nat) (snd cp)) [(\<lambda>i::nat. 8::int, Get 1 :: (nat, string) op)] \<and>
   (\<exists>rs1 c1 rs c.
      ttl_run (newTTLCache 20 defaultDuration False)
        ([(\<lambda>i. 0, Add (1::nat) ''a'')] @ [(\<lambda>i. 5, Add 2 ''b'')]) = Inr (rs1, c1) \<and>
      ttl_unrefreshed c1 2 [(\<lambda>i. 8, Get 1)] \<and>
      ttl_run c1 ([(\<lambda>i. 8, Get 1)] @ [(\<lambda>i. 16, Get 2)]) = Inr (rs, c) \<and> last rs = Found None)"
proof -
  have z: "TTL unset_ttl_config = 0" "MaxEntries unset_ttl_config = 20"
    by (simp_all add: unset_ttl_config_def NewCacheConfig_def)
  have l: "(5::int) + 10 < 16" by simp
  have u: "lru_unrefreshed (2::nat) [(8, Get 1 :: (nat, string) op)]"
    by (simp add: lru_unrefreshed_def adds_def)
  have n: "list_all (\<lambda>cp. \<not> adds (2::nat) (snd cp)) [(\<lambda>i::nat. 8::int, Get 1 :: (nat, string) op)]"
    by (simp add: adds_def)
  note w = default_duration_window [of unset_ttl_config False "2::nat"
      "[(8, Get 1 :: (nat, string) op)]" 5 16 20 "[(0, Add (1::nat) ''a'')]" "''b''"
      "[(\<lambda>i. 0, Add (1::nat) ''a'')]" "\<lambda>i. 5" "2::nat" "''b''"
      "[(\<lambda>i. 8, Get 1 :: (nat, string) op)]" "\<lambda>i. 16"]
  from w z have
    "(LRUWithTTLCacheMode unset_ttl_config :: (nat, string) ICache \<times> unit CacheConfig) =
       (LRU (newLRU 20 10), unset_ttl_config\<lparr>TTL := 10\<rparr>)"
    "(TTLCacheMode unset_ttl_config False :: (nat, string) ICache \<times> unit CacheConfig) =
       (TTLC (newTTLCache 20 10 False), unset_ttl_config\<lparr>TTL := 10\<rparr>)"
    by (simp_all add: LRUWithTTLCacheMode_def TTLCacheMode_def defaultDuration_def Let_def)
  then have m:
    "fst (LRUWithTTLCacheMode unset_ttl_config) = (LRU (newLRU 20 10) :: (nat, string) ICache)"
    "fst (TTLCacheMode unset_ttl_config False) = (TTLC (newTTLCache 20 10 False) :: (nat, string) ICache)"
    by simp_all
  have a: "\<exists>rs1 c1 rs c.
      lru_run (newLRU 20 defaultDuration) ([(0, Add (1::nat) ''a'')] @ [(5, Add 2 ''b'')]) =
        Inr (rs1, c1) \<and>
      lru_run c1 ([(8, Get 1)] @ [(16, Get 2)]) = Inr (rs, c) \<and> last rs = Found None"
    using w [THEN conjunct2, THEN conjunct2, THEN conjunct2, THEN conjunct1] u l by blast
  have b: "\<exists>rs1 c1 rs c.
      ttl_run (newTTLCache 20 defaultDuration False)
        ([(\<lambda>i. 0, Add (1::nat) ''a'')] @ [(\<lambda>i. 5, Add 2 ''b'')]) = Inr (rs1, c1) \<and>
      ttl_unrefreshed c1 2 [(\<lambda>i. 8, Get 1)] \<and>
      ttl_run c1 ([(\<lambda>i. 8, Get 1)] @ [(\<lambda>i. 16, Get 2)]) = Inr (rs, c) \<and> last rs = Found None"
  proof -
    from w [THEN conjunct2, THEN conjunct2, THEN conjunct2, THEN conjunct2] obtain rs1 c1 where
      c1: "ttl_run (newTTLCache 20 defaultDuration False)
             ([(\<lambda>i. 0, Add (1::nat) ''a'')] @ [(\<lambda>i. 5, Add 2 ''b'')]) = Inr (rs1, c1)"
          "\<not> False \<and> list_all (\<lambda>cp. \<not> adds (2::nat) (snd cp)) [(\<lambda>i::nat. 8::int, Get 1 :: (nat, string) op)] \<longrightarrow>
             ttl_unrefreshed c1 2 [(\<lambda>i. 8, Get 1)]"
          "ttl_unrefreshed c1 2 [(\<lambda>i. 8, Get 1)] \<and> (5::int) + 10 < 16 \<longrightarrow>
             (\<exists>rs c. ttl_run c1 ([(\<lambda>i. 8, Get 1)] @ [(\<lambda>i. 16, Get 2)]) = Inr (rs, c) \<and>
                last rs = Found None)"
      by blast
    from c1(2) n have f: "ttl_unrefreshed c1 2 [(\<lambda>i. 8, Get 1)]" by blast
    with c1(3) l obtain rs c where
      "ttl_run c1 ([(\<lambda>i. 8, Get 1)] @ [(\<lambda>i. 16, Get 2)]) = Inr (rs, c)" "last rs = Found None"
      by blast
    with c1(1) f show ?thesis by blast
  qed
  show ?thesis using z(1) m u l a n b by blast
qed

text \<open>
  Claim C10 as stated fails: under the default, an entry added at instant 0 is found by
  a lookup at the strictly later instant 1, in either mode.
\<close>

theorem default_duration_counterexample:
  "TTL unset_ttl_config = 0 \<and> (0::int) < 1 \<and>
   observed (ICache_run (fst (LRUWithTTLCacheMode unset_ttl_config))
     [(\<lambda>i. 0, Add (1::nat) ''a''), (\<lambda>i. 1, Get 1)]) = Inr [Done, Found (Some ''a'')] \<and>
   observed (ICache_run (fst (TTLCacheMode unset_ttl_config False))
     [(\<lambda>i. 0, Add (1::nat) ''a''), (\<lambda>i. 1, Get 1)]) = Inr [Done, Found (Some ''a'')]"
  by (simp add: unset_ttl_config_def NewCacheConfig_def LRUWithTTLCacheMode_def TTLCacheMode_def
      defaultDuration_def Let_def observed_def ICache_step_def lru_step_def ttl_step_def
      lru_add_def lru_get_def newLRU_def MoveToFront_def ttl_add_def ttl_get_def newTTLCache_def
      ttl_len_def fcard.rep_eq)

text \<open>
  The proviso is needed: in the expiry engine that updates the age on \<open>get\<close>, a \<open>get\<close>
  inside the window gives the entry a new \<open>ttl\<close>, and a lookup 16 nanoseconds after the
  insertion finds it.
\<close>

lemma default_duration_refreshed:
  "observed (ICache_run (fst (TTLCacheMode unset_ttl_config True))
     [(\<lambda>i. 0, Add (1::nat) ''a''), (\<lambda>i. 8, Get 1), (\<lambda>i. 16, Get 1)]) =
   Inr [Done, Found (Some ''a''), Found (Some ''a'')]"
  by (simp add: unset_ttl_config_def NewCacheConfig_def TTLCacheMode_def
      defaultDuration_def Let_def observed_def ICache_step_def ttl_step_def
      ttl_add_def ttl_get_def ttl_changeTTL_def newTTLCache_def ttl_len_def fcard.rep_eq)


end
